theory Spec2Isabelle
  imports Main
begin

section \<open>The flow builder of \<open>entt/graph/flow.hpp\<close>\<close>

text \<open>
  The class \<open>basic_flow\<close> records, for every resource, the tasks that read or write it,
  in the order of the declarations, and \<open>adjacency_matrix\<close> compiles the records into a
  square boolean matrix over task indices, stored row by row in one flat vector.

  Identifiers (\<open>id_type\<close>, declared in the absent \<open>core/fwd.hpp\<close>) are only compared for
  equality; they are natural numbers here. Sizes and task indices (\<open>std::size_t\<close>) are
  natural numbers as well: no arithmetic of the class can wrap before the matrix of
  \<open>length * length\<close> bits has been allocated.
\<close>

type_synonym id_type = nat

text \<open>\<open>ro_rw_descriptor_type\<close>: the task index and whether the access is a write.\<close>

type_synonym ro_rw_descriptor_type = "nat \<times> bool"

type_synonym ro_rw_container_type = "ro_rw_descriptor_type list"

text \<open>
  \<open>deps_container_type\<close> is a \<open>dense_map\<close>: a packed array of key/value pairs, in order of
  first insertion (nothing is ever erased from it); \<open>task_container_type\<close> is a
  \<open>dense_set\<close>, a packed array of distinct keys in order of insertion.
\<close>

type_synonym deps_container_type = "(id_type \<times> ro_rw_container_type) list"

type_synonym task_container_type = "id_type list"

type_synonym adjacency_matrix_type = "bool list"

record basic_flow =
  index :: nat
  task :: task_container_type
  deps :: deps_container_type

text \<open>\<open>std::numeric_limits<std::size_t>::max()\<close>, for a size type of 64 bits.\<close>

definition placeholder :: nat where
  "placeholder = 2 ^ 64 - 1"

datatype error = InvalidState

text \<open>
  What a member function hands back to its caller: the builder functions are declared
  to return \<open>basic_flow &\<close>, and a body can return the object or reach its closing brace
  without any \<open>return\<close> statement.
\<close>

datatype 'a returned = Returns 'a | No_Return

subsection \<open>Containers\<close>

text \<open>\<open>task.find(value)\<close> as the position of the key, \<open>None\<close> for \<open>task.cend()\<close>.\<close>

fun find_task :: "task_container_type \<Rightarrow> id_type \<Rightarrow> nat option" where
  "find_task [] value = None"
| "find_task (x # xs) value =
     (if x = value then Some 0 else map_option Suc (find_task xs value))"

text \<open>
  \<open>deps[res].push_back(d)\<close>: \<open>operator[]\<close> of the dense map default-constructs an empty
  vector at the end of the packed array when the key is absent.
\<close>

fun deps_push_back :: "deps_container_type \<Rightarrow> id_type \<Rightarrow> ro_rw_descriptor_type \<Rightarrow> deps_container_type" where
  "deps_push_back [] res d = [(res, [d])]"
| "deps_push_back ((k, v) # rest) res d =
     (if k = res then (k, v @ [d]) # rest else (k, v) # deps_push_back rest res d)"

subsection \<open>The builder functions\<close>

text \<open>The constructor: \<open>index{placeholder, allocator}, task{}, deps{}\<close>.\<close>

definition basic_flow_init :: basic_flow where
  "basic_flow_init = \<lparr>index = placeholder, task = [], deps = []\<rparr>"

definition clear :: "basic_flow \<Rightarrow> basic_flow" where
  "clear s = s\<lparr>index := placeholder, task := [], deps := []\<rparr>"

text \<open>
  \<open>task(value)\<close>: the first component is the object after the call. The body has no
  \<open>return\<close> statement (lines 199 to 206), so the second component is \<open>No_Return\<close>. The
  iterator difference \<open>it - task.cbagin()\<close> of line 204 is read as \<open>it - task.cbegin()\<close>.
\<close>

definition task_fn :: "id_type \<Rightarrow> basic_flow \<Rightarrow> basic_flow \<times> basic_flow returned" where
  "task_fn value s =
     (case find_task (task s) value of
        None \<Rightarrow> (s\<lparr>index := length (task s), task := task s @ [value]\<rparr>, No_Return)
      | Some pos \<Rightarrow> (s\<lparr>index := pos\<rparr>, No_Return))"

text \<open>
  Modelled from the spec: the macro \<open>ENTT_ASSERT\<close> of the absent \<open>config/config.h\<close>. A
  declaration made while no task is selected fails with the InvalidState condition, as
  a fail-fast assertion: nothing after the assertion runs.
\<close>

definition ENTT_ASSERT :: "bool \<Rightarrow> error + unit" where
  "ENTT_ASSERT condition = (if condition then Inr () else Inl InvalidState)"

definition ro :: "id_type \<Rightarrow> basic_flow \<Rightarrow> error + (basic_flow \<times> basic_flow returned)" where
  "ro res s =
     (case ENTT_ASSERT (index s \<noteq> placeholder) of
        Inl e \<Rightarrow> Inl e
      | Inr _ \<Rightarrow> Inr (s\<lparr>deps := deps_push_back (deps s) res (index s, False)\<rparr>, No_Return))"

definition rw :: "id_type \<Rightarrow> basic_flow \<Rightarrow> error + (basic_flow \<times> basic_flow returned)" where
  "rw res s =
     (case ENTT_ASSERT (index s \<noteq> placeholder) of
        Inl e \<Rightarrow> Inl e
      | Inr _ \<Rightarrow> Inr (s\<lparr>deps := deps_push_back (deps s) res (index s, True)\<rparr>, No_Return))"

text \<open>
  A caller's sequence of statements on one builder object, stopped by the first failed
  assertion.
\<close>

datatype call = Task id_type | Ro id_type | Rw id_type | Clear

fun exec :: "call \<Rightarrow> basic_flow \<Rightarrow> error + basic_flow" where
  "exec (Task value) s = Inr (fst (task_fn value s))"
| "exec (Ro res) s = map_sum id fst (ro res s)"
| "exec (Rw res) s = map_sum id fst (rw res s)"
| "exec Clear s = Inr (clear s)"

fun run :: "call list \<Rightarrow> basic_flow \<Rightarrow> error + basic_flow" where
  "run [] s = Inr s"
| "run (c # cs) s = (case exec c s of Inl e \<Rightarrow> Inl e | Inr s' \<Rightarrow> run cs s')"

subsection \<open>\<open>adjacency_matrix\<close>\<close>

text \<open>
  An iterator into a vector is the part of the vector from its position on; \<open>last\<close>
  is the empty list. \<open>std::find_if(it, last, [](elem) { return elem.second; })\<close>:
\<close>

definition find_if_rw :: "ro_rw_container_type \<Rightarrow> ro_rw_container_type" where
  "find_if_rw it = dropWhile (\<lambda>elem. \<not> snd elem) it"

text \<open>The elements that \<open>for(; it != next; ++it)\<close> visits when \<open>next\<close> is \<open>find_if_rw it\<close>.\<close>

definition up_to_rw :: "ro_rw_container_type \<Rightarrow> ro_rw_container_type" where
  "up_to_rw it = takeWhile (\<lambda>elem. \<not> snd elem) it"

text \<open>
  The \<open>while(it != last)\<close> loop of lines 52 to 79 over one resource. The list is the
  iterator \<open>it\<close>; in the equations that start with a write, \<open>cur\<close> (the iterator \<open>curr\<close>) is the head and \<open>it\<close>
  has already been advanced.
\<close>

function (sequential) scan :: "nat \<Rightarrow> ro_rw_container_type \<Rightarrow> adjacency_matrix_type \<Rightarrow> adjacency_matrix_type" where
  "scan len [] edges = edges"
| "scan len [(cur, True)] edges = edges"
| "scan len ((cur, True) # (t, True) # rest) edges =
     scan len ((t, True) # rest) (edges[cur * len + t := True])"
| "scan len ((cur, True) # (t, False) # rest) edges =
     (let it = (t, False) # rest; next = find_if_rw it in
      case next of
        (w, _) # _ \<Rightarrow>
          scan len next
            (fold (\<lambda>elem e. e[cur * len + fst elem := True, fst elem * len + w := True])
               (up_to_rw it) edges)
      | [] \<Rightarrow> fold (\<lambda>elem e. e[cur * len + fst elem := True]) (up_to_rw it) edges)"
| "scan len ((r, False) # rest) edges =
     (let it = (r, False) # rest; next = find_if_rw it in
      case next of
        (w, _) # _ \<Rightarrow>
          scan len next (fold (\<lambda>elem e. e[fst elem * len + w := True]) (up_to_rw it) edges)
      | [] \<Rightarrow> edges)"
  by pat_completeness auto

termination
proof (relation "measure (\<lambda>(n, it, e). size it)", goal_cases)
  case 1
  show ?case by simp
next
  case (2 len cur t rest edges)
  show ?case by simp
next
  case (3 len cur t rest edges it nxt w b tl)
  have "size (find_if_rw it) \<le> size it"
    unfolding find_if_rw_def by (rule length_dropWhile_le)
  with 3 show ?case by simp
next
  case (4 len r rest edges it nxt w b tl)
  have "find_if_rw it = find_if_rw rest"
    using 4 by (simp add: find_if_rw_def)
  moreover have "size (find_if_rw rest) \<le> size rest"
    unfolding find_if_rw_def by (rule length_dropWhile_le)
  ultimately show ?case using 4 by simp
qed

text \<open>
  Lines 44 to 80: the matrix of \<open>length * length\<close> false entries, then every resource.
  The source indexes the vector without a check. In every state that the builder
  functions produce, each logged task index is below \<open>length\<close> (\<open>run_in_range\<close> below), so
  that each of these writes is inside the vector; the closure and reduction loops
  stay inside it by their bounds.
\<close>

definition create_edges :: "nat \<Rightarrow> deps_container_type \<Rightarrow> adjacency_matrix_type" where
  "create_edges len dps =
     fold (\<lambda>elem edges. scan len (snd elem) edges) dps (replicate (len * len) False)"

text \<open>Lines 83 to 89: the three nested loops of the transitive closure, in place.\<close>

definition closure_vj :: "nat \<Rightarrow> nat \<Rightarrow> nat \<Rightarrow> nat \<Rightarrow> adjacency_matrix_type \<Rightarrow> adjacency_matrix_type" where
  "closure_vj len vk vi vj edges =
     edges[vi * len + vj :=
       edges ! (vi * len + vj) \<or> (edges ! (vi * len + vk) \<and> edges ! (vk * len + vj))]"

definition closure_vi :: "nat \<Rightarrow> nat \<Rightarrow> nat \<Rightarrow> adjacency_matrix_type \<Rightarrow> adjacency_matrix_type" where
  "closure_vi len vk vi edges = fold (closure_vj len vk vi) [0..<len] edges"

definition closure_vk :: "nat \<Rightarrow> nat \<Rightarrow> adjacency_matrix_type \<Rightarrow> adjacency_matrix_type" where
  "closure_vk len vk edges = fold (closure_vi len vk) [0..<len] edges"

definition transitive_closure :: "nat \<Rightarrow> adjacency_matrix_type \<Rightarrow> adjacency_matrix_type" where
  "transitive_closure len edges = fold (closure_vk len) [0..<len] edges"

text \<open>Lines 92 to 94: the diagonal is cleared.\<close>

definition clear_diagonal :: "nat \<Rightarrow> adjacency_matrix_type \<Rightarrow> adjacency_matrix_type" where
  "clear_diagonal len edges =
     fold (\<lambda>vert e. e[vert * len + vert := False]) [0..<len] edges"

text \<open>Lines 96 to 106: the three nested loops of the transitive reduction, in place.\<close>

definition reduction_vk :: "nat \<Rightarrow> nat \<Rightarrow> nat \<Rightarrow> nat \<Rightarrow> adjacency_matrix_type \<Rightarrow> adjacency_matrix_type" where
  "reduction_vk len vj vi vk edges =
     (if edges ! (vj * len + vk) then edges[vi * len + vk := False] else edges)"

definition reduction_vi :: "nat \<Rightarrow> nat \<Rightarrow> nat \<Rightarrow> adjacency_matrix_type \<Rightarrow> adjacency_matrix_type" where
  "reduction_vi len vj vi edges =
     (if edges ! (vi * len + vj) then fold (reduction_vk len vj vi) [0..<len] edges
      else edges)"

definition reduction_vj :: "nat \<Rightarrow> nat \<Rightarrow> adjacency_matrix_type \<Rightarrow> adjacency_matrix_type" where
  "reduction_vj len vj edges = fold (reduction_vi len vj) [0..<len] edges"

definition transitive_reduction :: "nat \<Rightarrow> adjacency_matrix_type \<Rightarrow> adjacency_matrix_type" where
  "transitive_reduction len edges = fold (reduction_vj len) [0..<len] edges"

text \<open>
  \<open>adjacency_matrix\<close>: the value of the local vector \<open>edges\<close> when line 107 is reached.
  (The \<open>return\<close> statement of line 108 names the function itself where the vector is
  meant.)
\<close>

definition adjacency_matrix :: "basic_flow \<Rightarrow> adjacency_matrix_type" where
  "adjacency_matrix s =
     (let len = size (task s);
          edges = create_edges len (deps s);
          edges = transitive_closure len edges;
          edges = clear_diagonal len edges;
          edges = transitive_reduction len edges
      in edges)"

subsection \<open>Reading a matrix\<close>

text \<open>
  The entry of row \<open>i\<close> and column \<open>j\<close> of a matrix over \<open>n\<close> tasks, for task indices
  only; and the matrix as a relation on task indices.
\<close>

definition edge :: "nat \<Rightarrow> adjacency_matrix_type \<Rightarrow> nat \<Rightarrow> nat \<Rightarrow> bool" where
  "edge n edges i j = (i < n \<and> j < n \<and> edges ! (i * n + j))"

definition edge_rel :: "nat \<Rightarrow> adjacency_matrix_type \<Rightarrow> (nat \<times> nat) set" where
  "edge_rel n edges = {(i, j). edge n edges i j}"

text \<open>The edges of a matrix as pairs of task indices, row by row.\<close>

definition edge_list :: "nat \<Rightarrow> adjacency_matrix_type \<Rightarrow> (nat \<times> nat) list" where
  "edge_list n edges =
     concat (map (\<lambda>i. map (\<lambda>j. (i, j)) (filter (\<lambda>j. edges ! (i * n + j)) [0..<n])) [0..<n])"

text \<open>
  The proxy that line 108 builds pairs the task table with the matrix: the edges of a
  matrix as pairs of task identifiers.
\<close>

definition key_edges :: "basic_flow \<Rightarrow> adjacency_matrix_type \<Rightarrow> (id_type \<times> id_type) list" where
  "key_edges s edges =
     map (\<lambda>(i, j). (task s ! i, task s ! j)) (edge_list (size (task s)) edges)"

definition graph_edges :: "basic_flow \<Rightarrow> (id_type \<times> id_type) list" where
  "graph_edges s = key_edges s (adjacency_matrix s)"

subsection \<open>Notions used in the proofs\<close>

text \<open>
  \<open>via E b i j\<close>: the relation \<open>E\<close> leads from \<open>i\<close> to \<open>j\<close> by a path whose inner vertices are
  all below \<open>b\<close>. It describes the matrix after \<open>b\<close> rounds of the outer closure loop.
\<close>

inductive via :: "(nat \<times> nat) set \<Rightarrow> nat \<Rightarrow> nat \<Rightarrow> nat \<Rightarrow> bool"
  for E :: "(nat \<times> nat) set" and b :: nat where
  direct: "(i, j) \<in> E \<Longrightarrow> via E b i j"
| through: "via E b i k \<Longrightarrow> via E b k j \<Longrightarrow> k < b \<Longrightarrow> via E b i j"

text \<open>
  The pairs of entries of a log, the first one declared before the second; and the
  pairs of task indices with such entries of which at least one is a write.
\<close>

primrec ordered_pairs :: "'a list \<Rightarrow> ('a \<times> 'a) set" where
  "ordered_pairs [] = {}"
| "ordered_pairs (x # xs) = {x} \<times> set xs \<union> ordered_pairs xs"

definition conflicts :: "ro_rw_container_type \<Rightarrow> (nat \<times> nat) set" where
  "conflicts log = {(fst a, fst b) | a b. (a, b) \<in> ordered_pairs log \<and> (snd a \<or> snd b)}"

text \<open>The conflicting ordered pairs of all logs of a builder.\<close>

definition declared_conflicts :: "basic_flow \<Rightarrow> (nat \<times> nat) set" where
  "declared_conflicts s = (\<Union>elem \<in> set (deps s). conflicts (snd elem))"

text \<open>
  Every logged task index is the index of a registered task, and so is the selected
  index unless it is the placeholder: both hold of every object that the builder
  functions produce.
\<close>

definition in_range :: "basic_flow \<Rightarrow> bool" where
  "in_range s = (\<forall>elem \<in> set (deps s). \<forall>d \<in> set (snd elem). fst d < size (task s))"

definition selected :: "basic_flow \<Rightarrow> bool" where
  "selected s = (index s = placeholder \<or> index s < size (task s))"

section \<open>Properties\<close>

subsection \<open>Unfolding the compilation\<close>

lemma create_edges_logs:
  "create_edges n dps = fold (scan n) (map snd dps) (replicate (n * n) False)"
  by (simp add: create_edges_def fold_map comp_def)

lemma adjacency_matrix_stages:
  "adjacency_matrix s =
     transitive_reduction (size (task s)) (clear_diagonal (size (task s))
       (transitive_closure (size (task s)) (create_edges (size (task s)) (deps s))))"
  by (simp add: adjacency_matrix_def Let_def)

subsection \<open>The diamond\<close>

lemma diamond_state:
  assumes "distinct [A, B, C, D]"
  shows "run [Task A, Rw R, Task B, Ro R, Task C, Ro R, Task D, Rw R] basic_flow_init =
    Inr \<lparr>index = 3, task = [A, B, C, D],
         deps = [(R, [(0, True), (1, False), (2, False), (3, True)])]\<rparr>"
  using assms
  by (simp add: basic_flow_init_def task_fn_def ro_def rw_def ENTT_ASSERT_def placeholder_def)

lemma diamond_matrix:
  "transitive_reduction 4 (clear_diagonal 4 (transitive_closure 4
     (fold (scan 4) [[(0, True), (1, False), (2, False), (3, True)]] (replicate (4 * 4) False)))) =
   [False, True, True, False,
    False, False, False, True,
    False, False, False, True,
    False, False, False, False]"
  by code_simp

lemma diamond_edge_list:
  "edge_list 4
     [False, True, True, False,
      False, False, False, True,
      False, False, False, True,
      False, False, False, False] = [(0, 1), (0, 2), (1, 3), (2, 3)]"
  by code_simp

text \<open>
  Claim C1. Task \<open>A\<close> writes resource \<open>R\<close>, then tasks \<open>B\<close> and \<open>C\<close> read it, then task \<open>D\<close>
  writes it, and nothing else is declared. The compiled graph has exactly the edges
  from \<open>A\<close> to \<open>B\<close>, from \<open>A\<close> to \<open>C\<close>, from \<open>B\<close> to \<open>D\<close> and from \<open>C\<close> to \<open>D\<close>: no edge joins \<open>B\<close>
  and \<open>C\<close>, and no edge goes from \<open>A\<close> to \<open>D\<close>.
\<close>

theorem diamond_scenario:
  assumes "distinct [A, B, C, D]"
    and "run [Task A, Rw R, Task B, Ro R, Task C, Ro R, Task D, Rw R] basic_flow_init = Inr s"
  shows "set (graph_edges s) = {(A, B), (A, C), (B, D), (C, D)}
    \<and> (B, C) \<notin> set (graph_edges s) \<and> (C, B) \<notin> set (graph_edges s)
    \<and> (A, D) \<notin> set (graph_edges s)"
proof -
  have s: "s = \<lparr>index = 3, task = [A, B, C, D],
         deps = [(R, [(0, True), (1, False), (2, False), (3, True)])]\<rparr>"
    using diamond_state [OF assms(1), of R] assms(2) by simp
  have len: "size (task s) = 4"
    and logs: "map snd (deps s) = [[(0, True), (1, False), (2, False), (3, True)]]"
    by (simp_all add: s)
  have "edge_list (size (task s)) (adjacency_matrix s) = [(0, 1), (0, 2), (1, 3), (2, 3)]"
    unfolding adjacency_matrix_stages create_edges_logs len logs diamond_matrix
    by (rule diamond_edge_list)
  then have "graph_edges s = [(A, B), (A, C), (B, D), (C, D)]"
    by (simp add: graph_edges_def key_edges_def s)
  then show ?thesis
    using assms(1) by auto
qed

theorem diamond_scenario_witness:
  "distinct [10, 11, 12, 13 :: nat]
   \<and> run [Task 10, Rw 5, Task 11, Ro 5, Task 12, Ro 5, Task 13, Rw 5] basic_flow_init =
       Inr \<lparr>index = 3, task = [10, 11, 12, 13],
            deps = [(5, [(0, True), (1, False), (2, False), (3, True)])]\<rparr>
   \<and> set (graph_edges \<lparr>index = 3, task = [10, 11, 12, 13],
            deps = [(5, [(0, True), (1, False), (2, False), (3, True)])]\<rparr>) =
       {(10, 11), (10, 12), (11, 13), (12, 13)}"
proof -
  have d: "distinct [10, 11, 12, 13 :: nat]"
    by simp
  have r: "run [Task 10, Rw 5, Task 11, Ro 5, Task 12, Ro 5, Task 13, Rw 5] basic_flow_init =
       Inr \<lparr>index = 3, task = [10, 11, 12, 13],
            deps = [(5, [(0, True), (1, False), (2, False), (3, True)])]\<rparr>"
    by (simp add: basic_flow_init_def task_fn_def ro_def rw_def ENTT_ASSERT_def placeholder_def)
  from diamond_scenario [OF d r] d r show ?thesis
    by blast
qed

subsection \<open>The chain of writes\<close>

lemma chain_state:
  assumes "distinct [A, B, C]"
  shows "run [Task A, Rw R, Task B, Rw R, Task C, Rw R] basic_flow_init =
    Inr \<lparr>index = 2, task = [A, B, C], deps = [(R, [(0, True), (1, True), (2, True)])]\<rparr>"
  using assms
  by (simp add: basic_flow_init_def task_fn_def ro_def rw_def ENTT_ASSERT_def placeholder_def)

lemma chain_matrix:
  "transitive_reduction 3 (clear_diagonal 3 (transitive_closure 3
     (fold (scan 3) [[(0, True), (1, True), (2, True)]] (replicate (3 * 3) False)))) =
   [False, True, False,
    False, False, True,
    False, False, False]"
  by code_simp

lemma chain_edge_list:
  "edge_list 3 [False, True, False, False, False, True, False, False, False] = [(0, 1), (1, 2)]"
  by code_simp

lemma chain_closure_edge_list:
  "edge_list 3 (transitive_closure 3 [False, True, False, False, False, True, False, False, False]) =
     [(0, 1), (0, 2), (1, 2)]"
  by code_simp

text \<open>
  Claim C2. Tasks \<open>A\<close>, \<open>B\<close> and \<open>C\<close> each declare one write of resource \<open>R\<close>, in this
  order, and nothing else is declared. The compiled graph has the edges from \<open>A\<close> to \<open>B\<close>
  and from \<open>B\<close> to \<open>C\<close> and no edge from \<open>A\<close> to \<open>C\<close>; \<open>A\<close> still reaches \<open>C\<close> in the transitive
  closure of the compiled graph, both as a relation and as the closure loops of the
  code compute it.
\<close>

theorem write_chain_scenario:
  assumes "distinct [A, B, C]"
    and "run [Task A, Rw R, Task B, Rw R, Task C, Rw R] basic_flow_init = Inr s"
  shows "(A, B) \<in> set (graph_edges s) \<and> (B, C) \<in> set (graph_edges s)
    \<and> (A, C) \<notin> set (graph_edges s)
    \<and> (A, C) \<in> (set (graph_edges s))\<^sup>+
    \<and> (A, C) \<in> set (key_edges s (transitive_closure (size (task s)) (adjacency_matrix s)))"
proof -
  have s: "s = \<lparr>index = 2, task = [A, B, C], deps = [(R, [(0, True), (1, True), (2, True)])]\<rparr>"
    using chain_state [OF assms(1), of R] assms(2) by simp
  have len: "size (task s) = 3"
    and logs: "map snd (deps s) = [[(0, True), (1, True), (2, True)]]"
    by (simp_all add: s)
  have m: "adjacency_matrix s = [False, True, False, False, False, True, False, False, False]"
    unfolding adjacency_matrix_stages create_edges_logs len logs by (rule chain_matrix)
  have "edge_list (size (task s)) (adjacency_matrix s) = [(0, 1), (1, 2)]"
    unfolding m len by (rule chain_edge_list)
  then have g: "graph_edges s = [(A, B), (B, C)]"
    by (simp add: graph_edges_def key_edges_def s)
  have "edge_list (size (task s)) (transitive_closure (size (task s)) (adjacency_matrix s)) =
      [(0, 1), (0, 2), (1, 2)]"
    unfolding m len by (rule chain_closure_edge_list)
  then have c: "key_edges s (transitive_closure (size (task s)) (adjacency_matrix s)) =
      [(A, B), (A, C), (B, C)]"
    by (simp add: key_edges_def s)
  have "(A, C) \<in> (set (graph_edges s))\<^sup>+"
    unfolding g by (rule trancl_into_trancl [where b = B]) auto
  then show ?thesis
    using assms(1) unfolding c by (auto simp: g)
qed

theorem write_chain_scenario_witness:
  "distinct [7, 8, 9 :: nat]
   \<and> run [Task 7, Rw 1, Task 8, Rw 1, Task 9, Rw 1] basic_flow_init =
       Inr \<lparr>index = 2, task = [7, 8, 9], deps = [(1, [(0, True), (1, True), (2, True)])]\<rparr>
   \<and> (7, 9) \<notin> set (graph_edges
        \<lparr>index = 2, task = [7, 8, 9], deps = [(1, [(0, True), (1, True), (2, True)])]\<rparr>)
   \<and> (7, 9) \<in> (set (graph_edges
        \<lparr>index = 2, task = [7, 8, 9], deps = [(1, [(0, True), (1, True), (2, True)])]\<rparr>))\<^sup>+"
proof -
  have d: "distinct [7, 8, 9 :: nat]"
    by simp
  have r: "run [Task 7, Rw 1, Task 8, Rw 1, Task 9, Rw 1] basic_flow_init =
       Inr \<lparr>index = 2, task = [7, 8, 9], deps = [(1, [(0, True), (1, True), (2, True)])]\<rparr>"
    by (simp add: basic_flow_init_def task_fn_def ro_def rw_def ENTT_ASSERT_def placeholder_def)
  from write_chain_scenario [OF d r] d r show ?thesis
    by blast
qed

subsection \<open>Declarations without a selected task\<close>

text \<open>
  Claim C8. When no task is selected (the index is the placeholder), \<open>ro\<close> and \<open>rw\<close> fail
  with InvalidState: the assertion stops the call before \<open>push_back\<close>, so that no
  updated object results and a sequence of calls ends there with the same error. No
  entry with the placeholder as its task index is appended to any log.
\<close>

theorem declare_without_task:
  assumes "index s = placeholder"
  shows "ro res s = Inl InvalidState \<and> rw res s = Inl InvalidState
    \<and> run (Ro res # cs) s = Inl InvalidState \<and> run (Rw res # cs) s = Inl InvalidState"
  using assms by (simp add: ro_def rw_def ENTT_ASSERT_def)

theorem declare_without_task_witness:
  "index basic_flow_init = placeholder
   \<and> ro 5 basic_flow_init = Inl InvalidState \<and> rw 5 basic_flow_init = Inl InvalidState"
proof -
  have i: "index basic_flow_init = placeholder"
    by (simp add: basic_flow_init_def)
  from declare_without_task [OF i, of 5 "[]"] i show ?thesis
    by blast
qed

text \<open>
  Claim C10. \<open>clear\<close> resets the index to the placeholder together with the task set and
  the logs, whatever task was selected before; a declaration that follows it at once
  fails with InvalidState.
\<close>

theorem clear_resets_current_task:
  "index (clear s) = placeholder \<and> task (clear s) = [] \<and> deps (clear s) = []
   \<and> ro res (clear s) = Inl InvalidState \<and> rw res (clear s) = Inl InvalidState
   \<and> run (Task value # Clear # Ro res # cs) s = Inl InvalidState
   \<and> run (Task value # Clear # Rw res # cs) s = Inl InvalidState"
  by (simp add: clear_def ro_def rw_def ENTT_ASSERT_def)

subsection \<open>Selecting a task\<close>

lemma find_task_None: "find_task xs v = None \<longleftrightarrow> v \<notin> set xs"
  by (induction xs) auto

lemma find_task_Some:
  "find_task xs v = Some pos \<Longrightarrow> pos < size xs \<and> xs ! pos = v \<and> v \<notin> set (take pos xs)"
proof (induction xs arbitrary: pos)
  case Nil
  then show ?case by simp
next
  case (Cons x xs)
  show ?case
  proof (cases "x = v")
    case True
    with Cons.prems show ?thesis by simp
  next
    case False
    with Cons.prems obtain p where p: "find_task xs v = Some p" "pos = Suc p"
      by auto
    from Cons.IH [OF p(1)] False p(2) show ?thesis
      by simp
  qed
qed

text \<open>
  What \<open>task\<close> does to the object: an unseen key is appended and gets the former number
  of tasks as its index, a key seen before gets its position back and nothing is
  added; either way the selected index is the position of the key, and the keys stay
  distinct.
\<close>

lemma task_fn_unseen:
  assumes "value \<notin> set (task s)"
  shows "fst (task_fn value s) = s\<lparr>index := size (task s), task := task s @ [value]\<rparr>"
  using assms by (simp add: task_fn_def find_task_None [THEN iffD2])

lemma task_fn_seen:
  assumes "value \<in> set (task s)"
  shows "task (fst (task_fn value s)) = task s
    \<and> index (fst (task_fn value s)) < size (task s)
    \<and> deps (fst (task_fn value s)) = deps s"
proof -
  from assms obtain pos where pos: "find_task (task s) value = Some pos"
    using find_task_None [of "task s" "value"] by (cases "find_task (task s) value") auto
  from find_task_Some [OF pos] pos show ?thesis
    by (simp add: task_fn_def)
qed

lemma task_fn_selects:
  "task (fst (task_fn value s)) ! index (fst (task_fn value s)) = value"
proof (cases "find_task (task s) value")
  case None
  then show ?thesis by (simp add: task_fn_def)
next
  case (Some pos)
  from find_task_Some [OF Some] Some show ?thesis
    by (simp add: task_fn_def)
qed

lemma task_fn_distinct:
  "distinct (task s) \<Longrightarrow> distinct (task (fst (task_fn value s)))"
  by (auto simp: task_fn_def find_task_None split: option.splits)

text \<open>
  Claim C9. The claim has \<open>task\<close> return the recorder itself, as the comment above the
  function does (\<open>@return This flow builder\<close>). The body ends without a \<open>return\<close>
  statement: on the empty builder, \<open>task(7)\<close> registers the key under index 0 and hands
  nothing back.
\<close>

theorem task_fn_hands_nothing_back:
  "task_fn 7 basic_flow_init = (\<lparr>index = 0, task = [7], deps = []\<rparr>, No_Return)
   \<and> snd (task_fn 7 basic_flow_init) \<noteq> Returns (fst (task_fn 7 basic_flow_init))"
  by (simp add: task_fn_def basic_flow_init_def)

subsection \<open>The matrix as a relation\<close>

lemma cell_less: "i < n \<Longrightarrow> j < n \<Longrightarrow> i * n + j < n * (n::nat)"
proof -
  assume i: "i < n" and j: "j < n"
  have "i * n + j < i * n + n" using j by simp
  also have "\<dots> = Suc i * n" by simp
  also have "\<dots> \<le> n * n" using i by (intro mult_le_mono1) simp
  finally show ?thesis .
qed

lemma cell_eq_iff:
  assumes "j < n" and "j' < (n::nat)"
  shows "i * n + j = i' * n + j' \<longleftrightarrow> i = i' \<and> j = j'"
proof
  assume eq: "i * n + j = i' * n + j'"
  have "(i * n + j) div n = i" and "(i * n + j) mod n = j"
    using assms(1) by simp_all
  moreover have "(i' * n + j') div n = i'" and "(i' * n + j') mod n = j'"
    using assms(2) by simp_all
  ultimately show "i = i' \<and> j = j'"
    using eq by metis
qed simp

lemma edge_update:
  assumes "size m = n * n" and "i' < n" and "j' < n"
  shows "edge n (m[i' * n + j' := v]) i j = (if i = i' \<and> j = j' then v else edge n m i j)"
proof (cases "i < n \<and> j < n")
  case True
  then have "i * n + j < size m"
    using assms(1) cell_less by simp
  with True assms show ?thesis
    by (auto simp: edge_def nth_list_update cell_eq_iff)
next
  case False
  with assms show ?thesis by (auto simp: edge_def)
qed

lemma nth_edge: "i < n \<Longrightarrow> j < n \<Longrightarrow> m ! (i * n + j) = edge n m i j"
  by (simp add: edge_def)

text \<open>No loop changes the size of the vector.\<close>

lemma size_reduction_vk [simp]: "size (reduction_vk n vj vi vk m) = size m"
  by (simp add: reduction_vk_def)

lemma size_fold_keep:
  assumes "\<And>x m. size (f x m) = size m"
  shows "size (fold f xs m) = size m"
  by (induction xs arbitrary: m) (simp_all add: assms)

lemma size_reduction_vi [simp]: "size (reduction_vi n vj vi m) = size m"
  by (simp add: reduction_vi_def size_fold_keep)

lemma size_reduction_vj [simp]: "size (reduction_vj n vj m) = size m"
  by (simp add: reduction_vj_def size_fold_keep)

lemma size_transitive_reduction [simp]: "size (transitive_reduction n m) = size m"
  by (simp add: transitive_reduction_def size_fold_keep)

lemma size_clear_diagonal [simp]: "size (clear_diagonal n m) = size m"
  by (simp add: clear_diagonal_def size_fold_keep)

lemma size_closure_vj [simp]: "size (closure_vj n vk vi vj m) = size m"
  by (simp add: closure_vj_def)

lemma size_closure_vi [simp]: "size (closure_vi n vk vi m) = size m"
  by (simp add: closure_vi_def size_fold_keep)

lemma size_closure_vk [simp]: "size (closure_vk n vk m) = size m"
  by (simp add: closure_vk_def size_fold_keep)

lemma size_transitive_closure [simp]: "size (transitive_closure n m) = size m"
  by (simp add: transitive_closure_def size_fold_keep)

lemma edge_reduction_vk:
  assumes "size m = n * n" and "vj < n" and "vi < n" and "vk < n"
  shows "edge n (reduction_vk n vj vi vk m) i k =
    (edge n m i k \<and> \<not> (i = vi \<and> k = vk \<and> edge n m vj vk))"
  using assms by (auto simp: reduction_vk_def edge_update nth_edge)

lemma edge_reduction_vk_upto:
  assumes "size m = n * n" and "vj < n" and "vi < n" and "b \<le> n"
  shows "edge n (fold (reduction_vk n vj vi) [0..<b] m) i k =
    (edge n m i k \<and> \<not> (i = vi \<and> k < b \<and> edge n m vj k))"
  using assms(4)
proof (induction b arbitrary: i k)
  case 0
  show ?case by simp
next
  case (Suc b)
  let ?m = "fold (reduction_vk n vj vi) [0..<b] m"
  have len: "size ?m = n * n"
    using assms(1) by (simp add: size_fold_keep)
  have IH: "\<And>i k. edge n ?m i k = (edge n m i k \<and> \<not> (i = vi \<and> k < b \<and> edge n m vj k))"
    using Suc by simp
  have "edge n (reduction_vk n vj vi b ?m) i k =
      (edge n ?m i k \<and> \<not> (i = vi \<and> k = b \<and> edge n ?m vj b))"
    using Suc.prems assms(2,3) len by (intro edge_reduction_vk) simp_all
  then show ?case
    by (auto simp: IH less_Suc_eq)
qed

lemma edge_reduction_vi:
  assumes "size m = n * n" and "vj < n" and "vi < n"
  shows "edge n (reduction_vi n vj vi m) i k =
    (edge n m i k \<and> \<not> (i = vi \<and> edge n m vi vj \<and> edge n m vj k))"
proof -
  have "edge n m vj k \<Longrightarrow> k < n"
    by (simp add: edge_def)
  then show ?thesis
    using assms edge_reduction_vk_upto [OF assms, of n i k]
    by (auto simp: reduction_vi_def nth_edge)
qed

lemma edge_reduction_vi_upto:
  assumes "size m = n * n" and "vj < n" and "b \<le> n" and "\<not> edge n m vj vj"
  shows "edge n (fold (reduction_vi n vj) [0..<b] m) i k =
    (edge n m i k \<and> \<not> (i < b \<and> edge n m i vj \<and> edge n m vj k))"
  using assms(3)
proof (induction b arbitrary: i k)
  case 0
  show ?case by simp
next
  case (Suc b)
  let ?m = "fold (reduction_vi n vj) [0..<b] m"
  have len: "size ?m = n * n"
    using assms(1) by (simp add: size_fold_keep)
  have IH: "\<And>i k. edge n ?m i k = (edge n m i k \<and> \<not> (i < b \<and> edge n m i vj \<and> edge n m vj k))"
    using Suc by simp
  have "edge n (reduction_vi n vj b ?m) i k =
      (edge n ?m i k \<and> \<not> (i = b \<and> edge n ?m b vj \<and> edge n ?m vj k))"
    using Suc.prems assms(2) len by (intro edge_reduction_vi) simp_all
  then show ?case
    using assms(4) by (auto simp: IH less_Suc_eq)
qed

lemma edge_reduction_vj:
  assumes "size m = n * n" and "vj < n" and "\<not> edge n m vj vj"
  shows "edge n (reduction_vj n vj m) i k =
    (edge n m i k \<and> \<not> (edge n m i vj \<and> edge n m vj k))"
proof -
  have "edge n m i vj \<Longrightarrow> i < n"
    by (simp add: edge_def)
  then show ?thesis
    using edge_reduction_vi_upto [OF assms(1,2) le_refl assms(3), of i k]
    by (auto simp: reduction_vj_def)
qed

text \<open>The reduction only removes edges.\<close>

lemma reduction_vi_upto_decreasing:
  assumes "size m = n * n" and "vj < n" and "b \<le> n"
    and "edge n (fold (reduction_vi n vj) [0..<b] m) i k"
  shows "edge n m i k"
  using assms(3,4)
proof (induction b arbitrary: i k)
  case 0
  then show ?case by simp
next
  case (Suc b)
  let ?m = "fold (reduction_vi n vj) [0..<b] m"
  have len: "size ?m = n * n"
    using assms(1) by (simp add: size_fold_keep)
  have "edge n (reduction_vi n vj b ?m) i k"
    using Suc.prems by simp
  then have "edge n ?m i k"
    using Suc.prems(1) assms(2) len by (simp add: edge_reduction_vi)
  then show ?case
    using Suc by simp
qed

lemma reduction_vj_decreasing:
  assumes "size m = n * n" and "vj < n" and "edge n (reduction_vj n vj m) i k"
  shows "edge n m i k"
  using reduction_vi_upto_decreasing [OF assms(1,2) le_refl] assms(3)
  by (simp add: reduction_vj_def)

lemma reduction_vj_range_decreasing:
  assumes "size m = n * n" and "b \<le> n"
    and "edge n (fold (reduction_vj n) [a..<b] m) i k"
  shows "edge n m i k"
  using assms(2,3)
proof (induction b arbitrary: i k)
  case 0
  then show ?case by simp
next
  case (Suc b)
  show ?case
  proof (cases "a \<le> b")
    case True
    let ?m = "fold (reduction_vj n) [a..<b] m"
    have len: "size ?m = n * n"
      using assms(1) by (simp add: size_fold_keep)
    have "edge n (reduction_vj n b ?m) i k"
      using Suc.prems True by simp
    then have "edge n ?m i k"
      using Suc.prems(1) len by (intro reduction_vj_decreasing [of ?m n b]) simp_all
    then show ?thesis
      using Suc by simp
  next
    case False
    with Suc.prems show ?thesis by simp
  qed
qed

lemma edge_clear_diagonal_upto:
  assumes "size m = n * n" and "b \<le> n"
  shows "edge n (fold (\<lambda>vert e. e[vert * n + vert := False]) [0..<b] m) i j =
    (edge n m i j \<and> \<not> (i = j \<and> i < b))"
  using assms(2)
proof (induction b)
  case 0
  show ?case by simp
next
  case (Suc b)
  let ?m = "fold (\<lambda>vert e. e[vert * n + vert := False]) [0..<b] m"
  have len: "size ?m = n * n"
    using assms(1) by (simp add: size_fold_keep)
  from Suc len show ?case
    by (auto simp: edge_update less_Suc_eq)
qed

lemma edge_clear_diagonal:
  assumes "size m = n * n"
  shows "edge n (clear_diagonal n m) i j = (edge n m i j \<and> i \<noteq> j)"
  using edge_clear_diagonal_upto [OF assms le_refl, of i j]
  by (auto simp: clear_diagonal_def edge_def)

lemma transitive_reduction_decreasing:
  assumes "size m = n * n" and "edge n (transitive_reduction n m) i k"
  shows "edge n m i k"
  using reduction_vj_range_decreasing [OF assms(1) le_refl, of 0] assms(2)
  by (simp add: transitive_reduction_def)

lemma transitive_reduction_minimal:
  assumes len: "size m = n * n" and diag: "\<And>v. \<not> edge n m v v"
    and ij: "edge n (transitive_reduction n m) i j"
    and jk: "edge n (transitive_reduction n m) j k"
  shows "\<not> edge n (transitive_reduction n m) i k"
proof
  assume ik: "edge n (transitive_reduction n m) i k"
  have j: "j < n"
    using jk by (simp add: edge_def)
  let ?before = "fold (reduction_vj n) [0..<j] m"
  let ?at = "reduction_vj n j ?before"
  have split: "[0..<n] = [0..<j] @ j # [Suc j..<n]"
    using j by (metis le0 upt_conv_Cons upt_add_eq_append le_add_diff_inverse less_imp_le_nat)
  have final: "transitive_reduction n m = fold (reduction_vj n) [Suc j..<n] ?at"
    by (simp add: transitive_reduction_def split)
  have len_before: "size ?before = n * n" and len_at: "size ?at = n * n"
    using len by (simp_all add: size_fold_keep)
  have later: "edge n ?at a b" if "edge n (transitive_reduction n m) a b" for a b
    using that reduction_vj_range_decreasing [OF len_at le_refl, of "Suc j" a b]
    by (simp add: final)
  have earlier: "edge n m a b" if "edge n ?before a b" for a b
    using that j reduction_vj_range_decreasing [OF len, of j 0 a b] by simp
  have nojj: "\<not> edge n ?before j j"
    using earlier diag by blast
  have at: "edge n ?at a b = (edge n ?before a b \<and> \<not> (edge n ?before a j \<and> edge n ?before j b))"
    for a b
    by (rule edge_reduction_vj [OF len_before j nojj])
  from later [OF ij] later [OF jk] later [OF ik] show False
    by (auto simp: at)
qed

lemma size_scan [simp]: "size (scan n log m) = size m"
proof (induction n log m rule: scan.induct)
  case (4 len cur t rest edges)
  show ?case
  proof (cases "find_if_rw ((t, False) # rest)")
    case Nil
    then show ?thesis by (simp add: size_fold_keep)
  next
    case (Cons e es)
    with 4 show ?thesis
      by (cases e) (simp add: size_fold_keep)
  qed
next
  case (5 len r rest edges)
  show ?case
  proof (cases "find_if_rw ((r, False) # rest)")
    case Nil
    then show ?thesis by simp
  next
    case (Cons e es)
    with 5 show ?thesis
      by (cases e) (simp add: size_fold_keep)
  qed
qed simp_all

lemma size_create_edges [simp]: "size (create_edges n dps) = n * n"
  by (simp add: create_edges_logs size_fold_keep)

lemma set_edge_list: "set (edge_list n m) = edge_rel n m"
  by (auto simp: edge_list_def edge_rel_def edge_def)

subsection \<open>The compiled graph\<close>

text \<open>
  Claim C4. The compiled graph of any builder state has no edge from a task index to
  itself: line 93 clears the diagonal and the reduction only removes edges.
\<close>

theorem no_self_loops: "\<not> edge (size (task s)) (adjacency_matrix s) i i"
proof
  let ?n = "size (task s)"
  let ?m = "clear_diagonal ?n (transitive_closure ?n (create_edges ?n (deps s)))"
  have len: "size ?m = ?n * ?n"
    by simp
  assume "edge ?n (adjacency_matrix s) i i"
  then have "edge ?n (transitive_reduction ?n ?m) i i"
    by (simp only: adjacency_matrix_stages)
  then have "edge ?n ?m i i"
    by (rule transitive_reduction_decreasing [OF len])
  then show False
    by (simp add: edge_clear_diagonal)
qed

text \<open>
  Claim C3. In the compiled graph of any builder state, two edges in a row, from \<open>i\<close> to
  \<open>j\<close> and from \<open>j\<close> to \<open>k\<close>, exclude the direct edge from \<open>i\<close> to \<open>k\<close>.
\<close>

theorem minimality:
  assumes "edge (size (task s)) (adjacency_matrix s) i j"
    and "edge (size (task s)) (adjacency_matrix s) j k"
  shows "\<not> edge (size (task s)) (adjacency_matrix s) i k"
proof -
  let ?n = "size (task s)"
  let ?m = "clear_diagonal ?n (transitive_closure ?n (create_edges ?n (deps s)))"
  have len: "size ?m = ?n * ?n"
    by simp
  have diag: "\<not> edge ?n ?m v v" for v
    by (simp add: edge_clear_diagonal)
  have ij: "edge ?n (transitive_reduction ?n ?m) i j"
    and jk: "edge ?n (transitive_reduction ?n ?m) j k"
    using assms by (simp_all only: adjacency_matrix_stages)
  show ?thesis
    unfolding adjacency_matrix_stages
    by (rule transitive_reduction_minimal [OF len diag ij jk])
qed
theorem minimality_witness:
  "edge (size (task \<lparr>index = 2, task = [7, 8, 9], deps = [(1, [(0, True), (1, True), (2, True)])]\<rparr>))
     (adjacency_matrix \<lparr>index = 2, task = [7, 8, 9], deps = [(1, [(0, True), (1, True), (2, True)])]\<rparr>) 0 1
   \<and> edge (size (task \<lparr>index = 2, task = [7, 8, 9], deps = [(1, [(0, True), (1, True), (2, True)])]\<rparr>))
     (adjacency_matrix \<lparr>index = 2, task = [7, 8, 9], deps = [(1, [(0, True), (1, True), (2, True)])]\<rparr>) 1 2
   \<and> \<not> edge (size (task \<lparr>index = 2, task = [7, 8, 9], deps = [(1, [(0, True), (1, True), (2, True)])]\<rparr>))
     (adjacency_matrix \<lparr>index = 2, task = [7, 8, 9], deps = [(1, [(0, True), (1, True), (2, True)])]\<rparr>) 0 2"
proof -
  let ?s = "\<lparr>index = 2, task = [7, 8, 9], deps = [(1, [(0, True), (1, True), (2, True)])]\<rparr>"
  have len: "size (task ?s) = 3"
    and logs: "map snd (deps ?s) = [[(0, True), (1, True), (2, True)]]"
    by simp_all
  have m: "adjacency_matrix ?s = [False, True, False, False, False, True, False, False, False]"
    unfolding adjacency_matrix_stages create_edges_logs len logs by (rule chain_matrix)
  have a: "edge (size (task ?s)) (adjacency_matrix ?s) 0 1"
    unfolding m len by (simp add: edge_def)
  have b: "edge (size (task ?s)) (adjacency_matrix ?s) 1 2"
    unfolding m len by (simp add: edge_def)
  from minimality [OF a b] a b show ?thesis
    by blast
qed

subsection \<open>The closure loops\<close>

lemma mem_edge_rel: "(i, j) \<in> edge_rel n m \<longleftrightarrow> edge n m i j"
  by (simp add: edge_rel_def)

lemma size_adjacency_matrix [simp]: "size (adjacency_matrix s) = size (task s) * size (task s)"
  by (simp add: adjacency_matrix_stages)

lemma matrix_eqI:
  assumes a: "size a = n * n" and b: "size b = n * n"
    and e: "\<And>i j. edge n a i j = edge n b i j"
  shows "a = b"
proof (rule nth_equalityI)
  show "size a = size b"
    using a b by simp
next
  fix p
  assume "p < size a"
  then have p: "p < n * n"
    using a by simp
  then have n: "0 < n"
    by (cases n) simp_all
  have i: "p div n < n"
    using p by (simp add: less_mult_imp_div_less)
  have j: "p mod n < n"
    using n by simp
  have "edge n a (p div n) (p mod n) = edge n b (p div n) (p mod n)"
    by (rule e)
  then show "a ! p = b ! p"
    using i j by (simp add: edge_def)
qed


lemma via_0: "via E 0 i j \<longleftrightarrow> (i, j) \<in> E"
proof
  show "via E 0 i j \<Longrightarrow> (i, j) \<in> E"
    by (induction rule: via.induct) simp_all
qed (rule via.direct)

lemma via_mono: "via E b i j \<Longrightarrow> b \<le> c \<Longrightarrow> via E c i j"
proof (induction rule: via.induct)
  case (direct i j)
  then show ?case by (simp add: via.direct)
next
  case (through i k j)
  then show ?case
    using via.through [of E c i k j] by simp
qed

lemma via_Suc:
  "via E (Suc b) i j \<longleftrightarrow> via E b i j \<or> (via E b i b \<and> via E b b j)"
proof
  assume "via E (Suc b) i j"
  then show "via E b i j \<or> (via E b i b \<and> via E b b j)"
  proof (induction rule: via.induct)
    case (direct i j)
    then show ?case by (simp add: via.direct)
  next
    case (through i k j)
    show ?case
    proof (cases "k = b")
      case True
      with through.IH show ?thesis by blast
    next
      case False
      with through.hyps have "k < b" by simp
      with through.IH show ?thesis
        by (meson via.through)
    qed
  qed
next
  assume "via E b i j \<or> (via E b i b \<and> via E b b j)"
  then show "via E (Suc b) i j"
  proof
    assume "via E b i j"
    then show ?thesis by (rule via_mono) simp
  next
    assume "via E b i b \<and> via E b b j"
    then have "via E (Suc b) i b" and "via E (Suc b) b j"
      by (auto intro: via_mono)
    then show ?thesis
      by (rule via.through) simp
  qed
qed

lemma via_trancl:
  assumes "\<And>x y. (x, y) \<in> E \<Longrightarrow> x < n"
  shows "via E n i j \<longleftrightarrow> (i, j) \<in> E\<^sup>+"
proof
  show "via E n i j \<Longrightarrow> (i, j) \<in> E\<^sup>+"
    by (induction rule: via.induct) auto
next
  assume "(i, j) \<in> E\<^sup>+"
  then show "via E n i j"
  proof (induction rule: trancl_induct)
    case (base y)
    then show ?case by (rule via.direct)
  next
    case (step y z)
    from step.hyps(2) have "y < n" by (rule assms)
    moreover from step.hyps(2) have "via E n y z" by (rule via.direct)
    ultimately show ?case
      using step.IH by (meson via.through)
  qed
qed

lemma edge_closure_vj:
  assumes "size m = n * n" and "vk < n" and "vi < n" and "vj < n"
  shows "edge n (closure_vj n vk vi vj m) i j =
    (edge n m i j \<or> (i = vi \<and> j = vj \<and> edge n m vi vk \<and> edge n m vk vj))"
  using assms by (auto simp: closure_vj_def edge_update nth_edge)

lemma edge_closure_vj_upto:
  assumes "size m = n * n" and "vk < n" and "vi < n" and "b \<le> n"
  shows "edge n (fold (closure_vj n vk vi) [0..<b] m) i j =
    (edge n m i j \<or> (i = vi \<and> j < b \<and> edge n m vi vk \<and> edge n m vk j))"
  using assms(4)
proof (induction b arbitrary: i j)
  case 0
  show ?case by simp
next
  case (Suc b)
  let ?m = "fold (closure_vj n vk vi) [0..<b] m"
  have len: "size ?m = n * n"
    using assms(1) by (simp add: size_fold_keep)
  have IH: "\<And>i j. edge n ?m i j =
      (edge n m i j \<or> (i = vi \<and> j < b \<and> edge n m vi vk \<and> edge n m vk j))"
    using Suc by simp
  have "edge n (closure_vj n vk vi b ?m) i j =
      (edge n ?m i j \<or> (i = vi \<and> j = b \<and> edge n ?m vi vk \<and> edge n ?m vk b))"
    using Suc.prems assms(2,3) len by (intro edge_closure_vj) simp_all
  then show ?case
    by (auto simp: IH less_Suc_eq)
qed

lemma edge_closure_vi:
  assumes "size m = n * n" and "vk < n" and "vi < n"
  shows "edge n (closure_vi n vk vi m) i j =
    (edge n m i j \<or> (i = vi \<and> edge n m vi vk \<and> edge n m vk j))"
proof -
  have "edge n m vk j \<Longrightarrow> j < n"
    by (simp add: edge_def)
  then show ?thesis
    using edge_closure_vj_upto [OF assms le_refl, of i j]
    by (auto simp: closure_vi_def)
qed

lemma edge_closure_vi_upto:
  assumes "size m = n * n" and "vk < n" and "b \<le> n"
  shows "edge n (fold (closure_vi n vk) [0..<b] m) i j =
    (edge n m i j \<or> (i < b \<and> edge n m i vk \<and> edge n m vk j))"
  using assms(3)
proof (induction b arbitrary: i j)
  case 0
  show ?case by simp
next
  case (Suc b)
  let ?m = "fold (closure_vi n vk) [0..<b] m"
  have len: "size ?m = n * n"
    using assms(1) by (simp add: size_fold_keep)
  have IH: "\<And>i j. edge n ?m i j =
      (edge n m i j \<or> (i < b \<and> edge n m i vk \<and> edge n m vk j))"
    using Suc by simp
  have "edge n (closure_vi n vk b ?m) i j =
      (edge n ?m i j \<or> (i = b \<and> edge n ?m b vk \<and> edge n ?m vk j))"
    using Suc.prems assms(2) len by (intro edge_closure_vi) simp_all
  then show ?case
    by (auto simp: IH less_Suc_eq)
qed

lemma edge_closure_vk:
  assumes "size m = n * n" and "vk < n"
  shows "edge n (closure_vk n vk m) i j =
    (edge n m i j \<or> (edge n m i vk \<and> edge n m vk j))"
proof -
  have "edge n m i vk \<Longrightarrow> i < n"
    by (simp add: edge_def)
  then show ?thesis
    using edge_closure_vi_upto [OF assms le_refl, of i j]
    by (auto simp: closure_vk_def)
qed

lemma edge_closure_vk_upto:
  assumes "size m = n * n" and "b \<le> n"
  shows "edge n (fold (closure_vk n) [0..<b] m) i j = via (edge_rel n m) b i j"
  using assms(2)
proof (induction b arbitrary: i j)
  case 0
  show ?case by (simp add: via_0 edge_rel_def)
next
  case (Suc b)
  let ?m = "fold (closure_vk n) [0..<b] m"
  have len: "size ?m = n * n"
    using assms(1) by (simp add: size_fold_keep)
  have IH: "\<And>i j. edge n ?m i j = via (edge_rel n m) b i j"
    using Suc by simp
  have "edge n (closure_vk n b ?m) i j = (edge n ?m i j \<or> (edge n ?m i b \<and> edge n ?m b j))"
    using Suc.prems len by (intro edge_closure_vk) simp_all
  then show ?case
    by (simp add: IH via_Suc)
qed

lemma edge_transitive_closure:
  assumes "size m = n * n"
  shows "edge n (transitive_closure n m) i j \<longleftrightarrow> (i, j) \<in> (edge_rel n m)\<^sup>+"
proof -
  have "x < n" if "(x, y) \<in> edge_rel n m" for x y
    using that by (simp add: edge_rel_def edge_def)
  from via_trancl [of "edge_rel n m" n, OF this] show ?thesis
    using edge_closure_vk_upto [OF assms le_refl] by (simp add: transitive_closure_def)
qed

subsection \<open>The reduction loops on a strict order\<close>

lemma edge_reduction_vj_upto:
  assumes len: "size m = n * n" and diag: "\<And>v. \<not> edge n m v v"
    and tr: "\<And>a b c. edge n m a b \<Longrightarrow> edge n m b c \<Longrightarrow> edge n m a c"
    and "b \<le> n"
  shows "edge n (fold (reduction_vj n) [0..<b] m) i k =
    (edge n m i k \<and> \<not> (\<exists>j<b. edge n m i j \<and> edge n m j k))"
  using assms(4)
proof (induction b arbitrary: i k)
  case 0
  show ?case by simp
next
  case (Suc b)
  let ?m = "fold (reduction_vj n) [0..<b] m"
  have len': "size ?m = n * n"
    using len by (simp add: size_fold_keep)
  have IH: "\<And>i k. edge n ?m i k = (edge n m i k \<and> \<not> (\<exists>j<b. edge n m i j \<and> edge n m j k))"
    using Suc by simp
  have b: "b < n"
    using Suc.prems by simp
  have "\<not> edge n ?m b b"
    using diag by (simp add: IH)
  then have step: "edge n (reduction_vj n b ?m) i k =
      (edge n ?m i k \<and> \<not> (edge n ?m i b \<and> edge n ?m b k))"
    by (rule edge_reduction_vj [OF len' b])
  show ?case
  proof (cases "edge n m i b \<and> edge n m b k")
    case True
    then show ?thesis
      using step by (auto simp: IH less_Suc_eq intro: tr)
  next
    case False
    then show ?thesis
      using step by (auto simp: IH less_Suc_eq)
  qed
qed

lemma edge_transitive_reduction:
  assumes "size m = n * n" and "\<And>v. \<not> edge n m v v"
    and "\<And>a b c. edge n m a b \<Longrightarrow> edge n m b c \<Longrightarrow> edge n m a c"
  shows "edge n (transitive_reduction n m) i k =
    (edge n m i k \<and> \<not> (\<exists>j. edge n m i j \<and> edge n m j k))"
proof -
  have "edge n m i j \<Longrightarrow> j < n" for j
    by (simp add: edge_def)
  then show ?thesis
    using edge_reduction_vj_upto [where i = i and k = k, OF assms le_refl]
    by (auto simp: transitive_reduction_def)
qed

lemma covering_trancl:
  fixes R :: "(nat \<times> nat) set"
  assumes bound: "\<And>x y. (x, y) \<in> R \<Longrightarrow> x < n"
    and irr: "\<And>x. (x, x) \<notin> R" and tr: "trans R"
  shows "{(i, k). (i, k) \<in> R \<and> \<not> (\<exists>j. (i, j) \<in> R \<and> (j, k) \<in> R)}\<^sup>+ = R"
    (is "?T\<^sup>+ = R")
proof
  have "?T\<^sup>+ \<subseteq> R\<^sup>+"
    by (rule trancl_mono_subset) auto
  then show "?T\<^sup>+ \<subseteq> R"
    using tr by simp
next
  have fin: "finite {j. (i, j) \<in> R \<and> (j, k) \<in> R}" for i k
  proof (rule finite_subset)
    show "{j. (i, j) \<in> R \<and> (j, k) \<in> R} \<subseteq> {..<n}"
      using bound by auto
  qed simp
  have "(i, k) \<in> ?T\<^sup>+" if "(i, k) \<in> R" for i k
    using that
  proof (induction "card {j. (i, j) \<in> R \<and> (j, k) \<in> R}" arbitrary: i k rule: less_induct)
    case less
    show ?case
    proof (cases "\<exists>j. (i, j) \<in> R \<and> (j, k) \<in> R")
      case False
      with less.prems have "(i, k) \<in> ?T" by simp
      then show ?thesis by (rule r_into_trancl)
    next
      case True
      then obtain j where ij: "(i, j) \<in> R" and jk: "(j, k) \<in> R"
        by blast
      have "{x. (i, x) \<in> R \<and> (x, j) \<in> R} \<subset> {x. (i, x) \<in> R \<and> (x, k) \<in> R}"
        using ij jk irr [of j] tr by (auto dest: transD)
      then have "card {x. (i, x) \<in> R \<and> (x, j) \<in> R} < card {x. (i, x) \<in> R \<and> (x, k) \<in> R}"
        by (rule psubset_card_mono [OF fin])
      then have 1: "(i, j) \<in> ?T\<^sup>+"
        using ij by (rule less.hyps)
      have "{x. (j, x) \<in> R \<and> (x, k) \<in> R} \<subset> {x. (i, x) \<in> R \<and> (x, k) \<in> R}"
        using ij jk irr [of j] tr by (auto dest: transD)
      then have "card {x. (j, x) \<in> R \<and> (x, k) \<in> R} < card {x. (i, x) \<in> R \<and> (x, k) \<in> R}"
        by (rule psubset_card_mono [OF fin])
      then have 2: "(j, k) \<in> ?T\<^sup>+"
        using jk by (rule less.hyps)
      from 1 2 show ?thesis by (rule trancl_trans)
    qed
  qed
  then show "R \<subseteq> ?T\<^sup>+"
    by auto
qed


lemma edge_reduced_acyclic:
  assumes len: "size m = n * n" and ac: "acyclic (edge_rel n m)"
  shows "edge n (transitive_reduction n (clear_diagonal n (transitive_closure n m))) i k \<longleftrightarrow>
    (i, k) \<in> (edge_rel n m)\<^sup>+ \<and> \<not> (\<exists>j. (i, j) \<in> (edge_rel n m)\<^sup>+ \<and> (j, k) \<in> (edge_rel n m)\<^sup>+)"
proof -
  let ?R = "(edge_rel n m)\<^sup>+"
  let ?d = "clear_diagonal n (transitive_closure n m)"
  have irr: "(x, x) \<notin> ?R" for x
    using ac by (simp add: acyclic_def)
  have d: "edge n ?d a b \<longleftrightarrow> (a, b) \<in> ?R" for a b
    using irr [of a] by (auto simp: edge_clear_diagonal edge_transitive_closure len)
  have "edge n (transitive_reduction n ?d) i k =
      (edge n ?d i k \<and> \<not> (\<exists>j. edge n ?d i j \<and> edge n ?d j k))"
  proof (rule edge_transitive_reduction)
    show "size ?d = n * n"
      using len by simp
    show "\<not> edge n ?d v v" for v
      by (simp add: d irr)
    show "edge n ?d a c" if "edge n ?d a b" and "edge n ?d b c" for a b c
      using that by (auto simp: d)
  qed
  then show ?thesis
    by (simp add: d)
qed

lemma reduced_trancl:
  assumes len: "size m = n * n" and ac: "acyclic (edge_rel n m)"
  shows "(edge_rel n (transitive_reduction n (clear_diagonal n (transitive_closure n m))))\<^sup>+ =
    (edge_rel n m)\<^sup>+"
proof -
  let ?R = "(edge_rel n m)\<^sup>+"
  have "edge_rel n (transitive_reduction n (clear_diagonal n (transitive_closure n m))) =
      {(i, k). (i, k) \<in> ?R \<and> \<not> (\<exists>j. (i, j) \<in> ?R \<and> (j, k) \<in> ?R)}"
    by (auto simp: mem_edge_rel edge_reduced_acyclic [OF len ac])
  moreover have "{(i, k). (i, k) \<in> ?R \<and> \<not> (\<exists>j. (i, j) \<in> ?R \<and> (j, k) \<in> ?R)}\<^sup>+ = ?R"
  proof (rule covering_trancl)
    show "x < n" if "(x, y) \<in> ?R" for x y
    proof -
      from that obtain z where "(x, z) \<in> edge_rel n m"
        by (meson converse_tranclE)
      then show ?thesis by (simp add: edge_rel_def edge_def)
    qed
    show "(x, x) \<notin> ?R" for x
      using ac by (simp add: acyclic_def)
    show "trans ?R"
      by (rule trans_trancl)
  qed
  ultimately show ?thesis by simp
qed



subsection \<open>Edge synthesis\<close>

lemma ordered_pairs_append:
  "ordered_pairs (xs @ ys) = ordered_pairs xs \<union> set xs \<times> set ys \<union> ordered_pairs ys"
  by (induction xs) auto

lemma ordered_pairs_set: "(a, b) \<in> ordered_pairs xs \<Longrightarrow> a \<in> set xs \<and> b \<in> set xs"
  by (induction xs) auto

lemma conflicts_mono:
  "ordered_pairs xs \<subseteq> ordered_pairs ys \<Longrightarrow> conflicts xs \<subseteq> conflicts ys"
  unfolding conflicts_def by blast

lemma conflicts_suffix: "conflicts ys \<subseteq> conflicts (xs @ ys)"
  by (rule conflicts_mono) (auto simp: ordered_pairs_append)

lemma conflicts_Cons: "(i, j) \<in> conflicts xs \<Longrightarrow> (i, j) \<in> conflicts (x # xs)"
  using conflicts_suffix [of xs "[x]"] by auto

lemma conflictsI:
  "(a, b) \<in> ordered_pairs log \<Longrightarrow> snd a \<or> snd b \<Longrightarrow> (fst a, fst b) \<in> conflicts log"
  unfolding conflicts_def by blast

lemma conflicts_write_head: "d \<in> set xs \<Longrightarrow> (cur, fst d) \<in> conflicts ((cur, True) # xs)"
  using conflictsI [of "(cur, True)" d "(cur, True) # xs"] by simp

lemma sorted_wrt_ordered_pairs:
  "sorted_wrt P (map g xs) \<Longrightarrow> (a, b) \<in> ordered_pairs xs \<Longrightarrow> P (g a) (g b)"
  by (induction xs) auto

lemma edge_fold_from:
  assumes "size m = n * n" and "cur < n" and "\<forall>d \<in> set rs. fst d < n"
  shows "edge n (fold (\<lambda>elem e. e[cur * n + fst elem := True]) rs m) i j =
    (edge n m i j \<or> (i = cur \<and> j \<in> fst ` set rs))"
  using assms(1,3)
proof (induction rs arbitrary: m)
  case Nil
  show ?case by simp
next
  case (Cons r rs)
  have "edge n (fold (\<lambda>elem e. e[cur * n + fst elem := True]) rs (m[cur * n + fst r := True])) i j =
      (edge n (m[cur * n + fst r := True]) i j \<or> (i = cur \<and> j \<in> fst ` set rs))"
    using Cons.prems by (intro Cons.IH) simp_all
  then show ?case
    using Cons.prems assms(2) by (auto simp: edge_update)
qed

lemma edge_fold_to:
  assumes "size m = n * n" and "w < n" and "\<forall>d \<in> set rs. fst d < n"
  shows "edge n (fold (\<lambda>elem e. e[fst elem * n + w := True]) rs m) i j =
    (edge n m i j \<or> (i \<in> fst ` set rs \<and> j = w))"
  using assms(1,3)
proof (induction rs arbitrary: m)
  case Nil
  show ?case by simp
next
  case (Cons r rs)
  have "edge n (fold (\<lambda>elem e. e[fst elem * n + w := True]) rs (m[fst r * n + w := True])) i j =
      (edge n (m[fst r * n + w := True]) i j \<or> (i \<in> fst ` set rs \<and> j = w))"
    using Cons.prems by (intro Cons.IH) simp_all
  then show ?case
    using Cons.prems assms(2) by (auto simp: edge_update)
qed

lemma edge_fold_both:
  assumes "size m = n * n" and "cur < n" and "w < n" and "\<forall>d \<in> set rs. fst d < n"
  shows "edge n (fold (\<lambda>elem e. e[cur * n + fst elem := True, fst elem * n + w := True]) rs m) i j =
    (edge n m i j \<or> (i = cur \<and> j \<in> fst ` set rs) \<or> (i \<in> fst ` set rs \<and> j = w))"
  using assms(1,4)
proof (induction rs arbitrary: m)
  case Nil
  show ?case by simp
next
  case (Cons r rs)
  let ?m = "m[cur * n + fst r := True, fst r * n + w := True]"
  have "edge n (fold (\<lambda>elem e. e[cur * n + fst elem := True, fst elem * n + w := True]) rs ?m) i j =
      (edge n ?m i j \<or> (i = cur \<and> j \<in> fst ` set rs) \<or> (i \<in> fst ` set rs \<and> j = w))"
    using Cons.prems by (intro Cons.IH) simp_all
  then show ?case
    using Cons.prems assms(2,3) by (auto simp: edge_update)
qed

lemma find_if_rw_split:
  assumes "find_if_rw it = (w, b) # rest"
  shows "it = up_to_rw it @ (w, True) # rest" and "b" and "\<forall>d \<in> set (up_to_rw it). \<not> snd d"
proof -
  from assms have "dropWhile (\<lambda>elem. \<not> snd elem) it = (w, b) # rest"
    by (simp add: find_if_rw_def)
  then have both: "it = takeWhile (\<lambda>elem. \<not> snd elem) it @ (w, b) # rest \<and> \<not> \<not> snd (w, b)"
    by (rule dropWhile_eq_Cons_conv [THEN iffD1])
  from both have 1: "it = up_to_rw it @ (w, b) # rest"
    unfolding up_to_rw_def by (rule conjunct1)
  from both have 2: "b"
    by simp
  from 2 have bt: "b = True"
    by simp
  show "it = up_to_rw it @ (w, True) # rest"
    using 1 unfolding bt .
  show "b"
    by (rule 2)
  show "\<forall>d \<in> set (up_to_rw it). \<not> snd d"
    unfolding up_to_rw_def by (auto dest: set_takeWhileD)
qed

lemma scan_sound:
  assumes "size m = n * n" and "\<forall>d \<in> set log. fst d < n" and "edge n (scan n log m) i j"
  shows "edge n m i j \<or> (i, j) \<in> conflicts log"
  using assms
proof (induction n log m rule: scan.induct)
  case (1 len edges)
  then show ?case by simp
next
  case (2 len cur edges)
  then show ?case by simp
next
  case (3 len cur t rest edges)
  let ?m = "edges[cur * len + t := True]"
  have "edge len ?m i j \<or> (i, j) \<in> conflicts ((t, True) # rest)"
    using "3.prems" by (intro "3.IH") simp_all
  moreover have "(cur, t) \<in> conflicts ((cur, True) # (t, True) # rest)"
    using conflicts_write_head [of "(t, True)" "(t, True) # rest" cur] by simp
  ultimately show ?case
    using "3.prems"(1,2) by (auto simp: edge_update intro: conflicts_Cons split: if_splits)
next
  case (4 len cur t rest edges)
  let ?it = "(t, False) # rest"
  show ?case
  proof (cases "find_if_rw ?it")
    case Nil
    then have "edge len (fold (\<lambda>elem e. e[cur * len + fst elem := True]) (up_to_rw ?it) edges) i j"
      using "4.prems"(3) by simp
    moreover have "\<forall>d \<in> set (up_to_rw ?it). fst d < len"
      using "4.prems"(2) unfolding up_to_rw_def by (auto dest: set_takeWhileD)
    ultimately have "edge len edges i j \<or> (i = cur \<and> j \<in> fst ` set (up_to_rw ?it))"
      using "4.prems"(1,2) by (simp add: edge_fold_from)
    moreover have "(cur, fst d) \<in> conflicts ((cur, True) # ?it)" if "d \<in> set (up_to_rw ?it)" for d
    proof -
      from that have "d \<in> set ?it"
        unfolding up_to_rw_def by (rule set_takeWhileD [THEN conjunct1])
      then show ?thesis
        by (rule conflicts_write_head)
    qed
    ultimately show ?thesis by auto
  next
    case (Cons e es)
    obtain w b where e: "e = (w, b)" by (cases e)
    note split = find_if_rw_split [OF Cons [unfolded e]]
    let ?reads = "up_to_rw ?it"
    let ?m = "fold (\<lambda>elem e. e[cur * len + fst elem := True, fst elem * len + w := True]) ?reads edges"
    have reads: "set ?reads \<subseteq> set ?it"
      unfolding up_to_rw_def by (auto dest: set_takeWhileD)
    have next_in: "set ((w, b) # es) \<subseteq> set ?it"
      using Cons e by (metis find_if_rw_def set_dropWhileD subsetI)
    have w: "w < len"
      using "4.prems"(2) next_in by auto
    have r: "\<forall>d \<in> set ?reads. fst d < len"
      using "4.prems"(2) reads by auto
    have fi: "find_if_rw ?it = (w, b) # es"
      using Cons e by simp
    have "edge len ?m i j \<or> (i, j) \<in> conflicts (find_if_rw ?it)"
    proof (rule "4.IH" [OF refl refl Cons e [symmetric]])
      show "size ?m = len * len"
        using "4.prems"(1) by (simp add: size_fold_keep)
      show "\<forall>d \<in> set (find_if_rw ?it). fst d < len"
        using "4.prems"(2) next_in unfolding fi by auto
      show "edge len (scan len (find_if_rw ?it) ?m) i j"
        using "4.prems"(3) by (simp add: fi)
    qed
    then have "edge len ?m i j \<or> (i, j) \<in> conflicts ((w, b) # es)"
      by (simp only: fi)
    moreover have "(i, j) \<in> conflicts ((cur, True) # ?it)" if "(i, j) \<in> conflicts ((w, b) # es)"
    proof -
      have "conflicts ((w, b) # es) \<subseteq> conflicts (((cur, True) # ?reads) @ (w, b) # es)"
        by (rule conflicts_suffix)
      also have "((cur, True) # ?reads) @ (w, b) # es = (cur, True) # ?it"
        using split(1,2) by simp
      finally show ?thesis using that by blast
    qed
    moreover have "edge len ?m i j =
        (edge len edges i j \<or> (i = cur \<and> j \<in> fst ` set ?reads) \<or> (i \<in> fst ` set ?reads \<and> j = w))"
      using "4.prems"(1,2) w r by (intro edge_fold_both) simp_all
    moreover have "(cur, fst d) \<in> conflicts ((cur, True) # ?it)" if "d \<in> set ?reads" for d
      using that reads by (intro conflicts_write_head) blast
    moreover have "(fst d, w) \<in> conflicts ((cur, True) # ?it)" if "d \<in> set ?reads" for d
    proof -
      have "(d, (w, True)) \<in> ordered_pairs (?reads @ (w, True) # es)"
        using that by (simp add: ordered_pairs_append)
      then have "(d, (w, True)) \<in> ordered_pairs ?it"
        using split(1) by simp
      then have "(fst d, fst (w, True)) \<in> conflicts ?it"
        by (rule conflictsI) simp
      then show ?thesis
        by (simp add: conflicts_Cons)
    qed
    ultimately show ?thesis by auto
  qed
next
  case (5 len r rest edges)
  let ?it = "(r, False) # rest"
  show ?case
  proof (cases "find_if_rw ?it")
    case Nil
    then show ?thesis
      using "5.prems"(3) by simp
  next
    case (Cons e es)
    obtain w b where e: "e = (w, b)" by (cases e)
    note split = find_if_rw_split [OF Cons [unfolded e]]
    let ?reads = "up_to_rw ?it"
    let ?m = "fold (\<lambda>elem e. e[fst elem * len + w := True]) ?reads edges"
    have reads: "set ?reads \<subseteq> set ?it"
      unfolding up_to_rw_def by (auto dest: set_takeWhileD)
    have next_in: "set ((w, b) # es) \<subseteq> set ?it"
      using Cons e by (metis find_if_rw_def set_dropWhileD subsetI)
    have w: "w < len"
      using "5.prems"(2) next_in by auto
    have rd: "\<forall>d \<in> set ?reads. fst d < len"
      using "5.prems"(2) reads by auto
    have fi: "find_if_rw ?it = (w, b) # es"
      using Cons e by simp
    have "edge len ?m i j \<or> (i, j) \<in> conflicts (find_if_rw ?it)"
    proof (rule "5.IH" [OF refl refl Cons e [symmetric]])
      show "size ?m = len * len"
        using "5.prems"(1) by (simp add: size_fold_keep)
      show "\<forall>d \<in> set (find_if_rw ?it). fst d < len"
        using "5.prems"(2) next_in unfolding fi by auto
      show "edge len (scan len (find_if_rw ?it) ?m) i j"
        using "5.prems"(3) by (simp add: fi)
    qed
    then have "edge len ?m i j \<or> (i, j) \<in> conflicts ((w, b) # es)"
      by (simp only: fi)
    moreover have "(i, j) \<in> conflicts ?it" if "(i, j) \<in> conflicts ((w, b) # es)"
    proof -
      have "conflicts ((w, b) # es) \<subseteq> conflicts (?reads @ (w, b) # es)"
        by (rule conflicts_suffix)
      also have "?reads @ (w, b) # es = ?it"
        using split(1,2) by simp
      finally show ?thesis using that by blast
    qed
    moreover have "edge len ?m i j = (edge len edges i j \<or> (i \<in> fst ` set ?reads \<and> j = w))"
      using "5.prems"(1) w rd by (intro edge_fold_to) simp_all
    moreover have "(fst d, w) \<in> conflicts ?it" if "d \<in> set ?reads" for d
    proof -
      have "(d, (w, True)) \<in> ordered_pairs (?reads @ (w, True) # es)"
        using that by (simp add: ordered_pairs_append)
      then have "(d, (w, True)) \<in> ordered_pairs ?it"
        using split(1) by simp
      then have "(fst d, fst (w, True)) \<in> conflicts ?it"
        by (rule conflictsI) simp
      then show ?thesis by simp
    qed
    ultimately show ?thesis by auto
  qed
qed

lemma edge_replicate_False: "\<not> edge n (replicate (n * n) False) i j"
  by (auto simp: edge_def cell_less)

lemma fold_scan_sound:
  assumes "size m = n * n" and "\<forall>log \<in> set logs. \<forall>d \<in> set log. fst d < n"
    and "edge n (fold (scan n) logs m) i j"
  shows "edge n m i j \<or> (\<exists>log \<in> set logs. (i, j) \<in> conflicts log)"
  using assms
proof (induction logs arbitrary: m)
  case Nil
  then show ?case by simp
next
  case (Cons log logs)
  have "edge n (scan n log m) i j \<or> (\<exists>l \<in> set logs. (i, j) \<in> conflicts l)"
    using Cons.prems by (intro Cons.IH) simp_all
  moreover have "edge n m i j \<or> (i, j) \<in> conflicts log" if "edge n (scan n log m) i j"
    using Cons.prems(1,2) that by (intro scan_sound) simp_all
  ultimately show ?case by auto
qed

lemma create_edges_sound:
  assumes "in_range s" and "edge (size (task s)) (create_edges (size (task s)) (deps s)) i j"
  shows "\<exists>elem \<in> set (deps s). (i, j) \<in> conflicts (snd elem)"
proof -
  let ?n = "size (task s)"
  have "\<forall>log \<in> set (map snd (deps s)). \<forall>d \<in> set log. fst d < ?n"
    using assms(1) by (auto simp: in_range_def)
  with assms(2) have "edge ?n (replicate (?n * ?n) False) i j
      \<or> (\<exists>log \<in> set (map snd (deps s)). (i, j) \<in> conflicts log)"
    unfolding create_edges_logs by (intro fold_scan_sound) simp_all
  then show ?thesis
    by (auto simp: edge_replicate_False)
qed

lemma deps_push_back_set:
  assumes "elem \<in> set (deps_push_back dps res d)" and "x \<in> set (snd elem)"
  shows "x = d \<or> (\<exists>old \<in> set dps. x \<in> set (snd old))"
  using assms by (induction dps) (auto split: if_splits)

lemma in_rangeD: "in_range s \<Longrightarrow> elem \<in> set (deps s) \<Longrightarrow> d \<in> set (snd elem) \<Longrightarrow> fst d < size (task s)"
  by (simp add: in_range_def)

lemma in_rangeI:
  "(\<And>elem d. elem \<in> set (deps s) \<Longrightarrow> d \<in> set (snd elem) \<Longrightarrow> fst d < size (task s)) \<Longrightarrow> in_range s"
  by (simp add: in_range_def)

lemma in_range_push_back:
  assumes "in_range s" and "index s < size (task s)"
  shows "in_range (s\<lparr>deps := deps_push_back (deps s) res (index s, w)\<rparr>)"
proof (rule in_rangeI)
  fix elem d
  assume "elem \<in> set (deps (s\<lparr>deps := deps_push_back (deps s) res (index s, w)\<rparr>))"
    and "d \<in> set (snd elem)"
  then have "d = (index s, w) \<or> (\<exists>old \<in> set (deps s). d \<in> set (snd old))"
    using deps_push_back_set [of elem "deps s" res "(index s, w)" d] by simp
  then show "fst d < size (task (s\<lparr>deps := deps_push_back (deps s) res (index s, w)\<rparr>))"
    using assms by (auto dest: in_rangeD)
qed

lemma exec_keeps_range:
  assumes "exec c s = Inr s'" and "selected s" and "in_range s"
  shows "selected s' \<and> in_range s'"
proof (cases c)
  case (Task v)
  show ?thesis
  proof (cases "find_task (task s) v")
    case None
    with Task assms(1) have s': "s' = s\<lparr>index := size (task s), task := task s @ [v]\<rparr>"
      by (simp add: task_fn_def)
    have "in_range s'"
    proof (rule in_rangeI)
      fix elem d
      assume "elem \<in> set (deps s')" and "d \<in> set (snd elem)"
      then have "fst d < size (task s)"
        using assms(3) by (simp add: s' in_rangeD)
      then show "fst d < size (task s')"
        by (simp add: s')
    qed
    then show ?thesis
      by (simp add: s' selected_def)
  next
    case (Some pos)
    with Task assms(1) have s': "s' = s\<lparr>index := pos\<rparr>"
      by (simp add: task_fn_def)
    have "in_range s'"
      using assms(3) by (simp add: s' in_range_def)
    with find_task_Some [OF Some] show ?thesis
      by (simp add: s' selected_def)
  qed
next
  case (Ro res)
  with assms(1) have i: "index s \<noteq> placeholder"
    and s': "s' = s\<lparr>deps := deps_push_back (deps s) res (index s, False)\<rparr>"
    by (auto simp: ro_def ENTT_ASSERT_def split: if_splits)
  from i assms(2) have "index s < size (task s)"
    by (simp add: selected_def)
  with assms(2,3) show ?thesis
    unfolding s' by (simp add: in_range_push_back selected_def)
next
  case (Rw res)
  with assms(1) have i: "index s \<noteq> placeholder"
    and s': "s' = s\<lparr>deps := deps_push_back (deps s) res (index s, True)\<rparr>"
    by (auto simp: rw_def ENTT_ASSERT_def split: if_splits)
  from i assms(2) have "index s < size (task s)"
    by (simp add: selected_def)
  with assms(2,3) show ?thesis
    unfolding s' by (simp add: in_range_push_back selected_def)
next
  case Clear
  with assms show ?thesis
    by (auto simp: clear_def selected_def in_range_def)
qed

lemma run_keeps_range:
  assumes "run cs s = Inr s'" and "selected s" and "in_range s"
  shows "selected s' \<and> in_range s'"
  using assms
proof (induction cs arbitrary: s)
  case Nil
  then show ?case by simp
next
  case (Cons c cs)
  from Cons.prems(1) obtain s1 where c: "exec c s = Inr s1" and cs: "run cs s1 = Inr s'"
    by (auto split: sum.splits)
  from exec_keeps_range [OF c Cons.prems(2,3)] have "selected s1" and "in_range s1"
    by simp_all
  with cs show ?case
    by (rule Cons.IH)
qed

lemma run_in_range: "run cs basic_flow_init = Inr s \<Longrightarrow> in_range s"
  using run_keeps_range [of cs basic_flow_init s]
  by (simp add: basic_flow_init_def selected_def in_range_def)


lemma conflicts_writes:
  assumes "(i, j) \<in> conflicts log"
  shows "i \<in> fst ` set log \<and> j \<in> fst ` set log \<and> ((i, True) \<in> set log \<or> (j, True) \<in> set log)"
proof -
  from assms obtain a b where ab: "(a, b) \<in> ordered_pairs log" "i = fst a" "j = fst b" "snd a \<or> snd b"
    unfolding conflicts_def by blast
  from ordered_pairs_set [OF ab(1)] have "a \<in> set log" and "b \<in> set log"
    by simp_all
  moreover from ab(4) have "a = (fst a, True) \<or> b = (fst b, True)"
    by (metis prod.collapse)
  ultimately show ?thesis
    using ab(2,3) by (metis imageI)
qed

lemma ranked_edges:
  assumes "in_range s"
    and "\<forall>elem \<in> set (deps s). sorted_wrt (\<lambda>a b. f a < f b) (map fst (snd elem))"
    and "edge (size (task s)) (create_edges (size (task s)) (deps s)) i j"
  shows "(f i :: nat) < f j"
proof -
  from create_edges_sound [OF assms(1,3)] obtain elem
    where elem: "elem \<in> set (deps s)" and c: "(i, j) \<in> conflicts (snd elem)"
    by blast
  from c obtain a b where ab: "(a, b) \<in> ordered_pairs (snd elem)" "i = fst a" "j = fst b"
    unfolding conflicts_def by blast
  from assms(2) elem have "sorted_wrt (\<lambda>a b. f a < f b) (map fst (snd elem))"
    by blast
  from sorted_wrt_ordered_pairs [OF this ab(1)] ab(2,3) show ?thesis
    by simp
qed

lemma ranked_acyclic:
  assumes "\<And>i j. (i, j) \<in> E \<Longrightarrow> (f i :: nat) < f j"
  shows "acyclic E"
proof (rule acyclic_subset)
  show "acyclic (inv_image less_than f)"
    by (intro wf_acyclic wf_inv_image wf_less_than)
  show "E \<subseteq> inv_image less_than f"
    using assms by (auto simp: inv_image_def)
qed


lemma ranked_synthesis_acyclic:
  fixes f :: "nat \<Rightarrow> nat"
  assumes "in_range s"
    and "\<forall>elem \<in> set (deps s). sorted_wrt (\<lambda>a b. f a < f b) (map fst (snd elem))"
  shows "acyclic (edge_rel (size (task s)) (create_edges (size (task s)) (deps s)))"
proof (rule ranked_acyclic [of _ f])
  fix i j
  assume "(i, j) \<in> edge_rel (size (task s)) (create_edges (size (task s)) (deps s))"
  then have "edge (size (task s)) (create_edges (size (task s)) (deps s)) i j"
    by (simp add: mem_edge_rel)
  with assms show "(f i :: nat) < f j"
    by (rule ranked_edges)
qed


text \<open>
  Conversely, the scan of a log joins every conflicting ordered pair of the log by a
  path of edges, and never removes an edge.
\<close>

lemma conflicts_Cons_cases:
  assumes "(i, j) \<in> conflicts (x # xs)"
  shows "(i = fst x \<and> (\<exists>d \<in> set xs. j = fst d \<and> (snd x \<or> snd d))) \<or> (i, j) \<in> conflicts xs"
proof -
  from assms obtain a b where ab: "(a, b) \<in> ordered_pairs (x # xs)" "i = fst a" "j = fst b" "snd a \<or> snd b"
    unfolding conflicts_def by blast
  from ab(1) have "(a = x \<and> b \<in> set xs) \<or> (a, b) \<in> ordered_pairs xs"
    by auto
  then show ?thesis
  proof
    assume "a = x \<and> b \<in> set xs"
    with ab(2,3,4) show ?thesis by blast
  next
    assume "(a, b) \<in> ordered_pairs xs"
    then have "(fst a, fst b) \<in> conflicts xs"
      using ab(4) by (rule conflictsI)
    with ab(2,3) show ?thesis by simp
  qed
qed

lemma conflicts_append_cases:
  assumes "(i, j) \<in> conflicts (xs @ ys)"
  shows "(i, j) \<in> conflicts xs
    \<or> (\<exists>a \<in> set xs. \<exists>b \<in> set ys. i = fst a \<and> j = fst b \<and> (snd a \<or> snd b))
    \<or> (i, j) \<in> conflicts ys"
proof -
  from assms obtain a b where ab: "(a, b) \<in> ordered_pairs (xs @ ys)" "i = fst a" "j = fst b" "snd a \<or> snd b"
    unfolding conflicts_def by blast
  from ab(1) have "(a, b) \<in> ordered_pairs xs \<or> (a \<in> set xs \<and> b \<in> set ys) \<or> (a, b) \<in> ordered_pairs ys"
    by (auto simp: ordered_pairs_append)
  then show ?thesis
  proof (elim disjE)
    assume "(a, b) \<in> ordered_pairs xs"
    then have "(fst a, fst b) \<in> conflicts xs"
      using ab(4) by (rule conflictsI)
    with ab(2,3) show ?thesis by simp
  next
    assume "a \<in> set xs \<and> b \<in> set ys"
    with ab(2,3,4) show ?thesis by blast
  next
    assume "(a, b) \<in> ordered_pairs ys"
    then have "(fst a, fst b) \<in> conflicts ys"
      using ab(4) by (rule conflictsI)
    with ab(2,3) show ?thesis by simp
  qed
qed

lemma conflicts_reads:
  assumes "\<forall>d \<in> set xs. \<not> snd d"
  shows "(i, j) \<notin> conflicts xs"
proof
  assume "(i, j) \<in> conflicts xs"
  then have "(i, True) \<in> set xs \<or> (j, True) \<in> set xs"
    by (simp add: conflicts_writes)
  with assms show False by auto
qed

lemma find_if_rw_Nil:
  assumes "find_if_rw it = []"
  shows "up_to_rw it = it" and "\<forall>d \<in> set it. \<not> snd d"
  using assms unfolding find_if_rw_def up_to_rw_def by simp_all

lemma scan_mono:
  assumes "size m = n * n" and "\<forall>d \<in> set log. fst d < n" and "edge n m i j"
  shows "edge n (scan n log m) i j"
  using assms
proof (induction n log m rule: scan.induct)
  case (1 len edges)
  then show ?case by simp
next
  case (2 len cur edges)
  then show ?case by simp
next
  case (3 len cur t rest edges)
  have "edge len (scan len ((t, True) # rest) (edges[cur * len + t := True])) i j"
    using "3.prems" by (intro "3.IH") (simp_all add: edge_update)
  then show ?case by simp
next
  case (4 len cur t rest edges)
  let ?it = "(t, False) # rest"
  have reads: "\<forall>d \<in> set (up_to_rw ?it). fst d < len"
    using "4.prems"(2) unfolding up_to_rw_def by (auto dest: set_takeWhileD)
  show ?case
  proof (cases "find_if_rw ?it")
    case Nil
    then show ?thesis
      using "4.prems" reads by (simp add: edge_fold_from)
  next
    case (Cons e es)
    obtain w b where e: "e = (w, b)" by (cases e)
    have fi: "find_if_rw ?it = (w, b) # es"
      using Cons e by simp
    have next_in: "set ((w, b) # es) \<subseteq> set ?it"
      using fi by (metis find_if_rw_def set_dropWhileD subsetI)
    have w: "w < len"
      using "4.prems"(2) next_in by auto
    let ?m = "fold (\<lambda>elem e. e[cur * len + fst elem := True, fst elem * len + w := True])
        (up_to_rw ?it) edges"
    have "edge len (scan len (find_if_rw ?it) ?m) i j"
    proof (rule "4.IH" [OF refl refl Cons e [symmetric]])
      show "size ?m = len * len"
        using "4.prems"(1) by (simp add: size_fold_keep)
      show "\<forall>d \<in> set (find_if_rw ?it). fst d < len"
        using "4.prems"(2) next_in unfolding fi by auto
      show "edge len ?m i j"
        using "4.prems" w reads by (simp add: edge_fold_both)
    qed
    then show ?thesis
      by (simp add: fi)
  qed
next
  case (5 len r rest edges)
  let ?it = "(r, False) # rest"
  have reads: "\<forall>d \<in> set (up_to_rw ?it). fst d < len"
    using "5.prems"(2) unfolding up_to_rw_def by (auto dest: set_takeWhileD)
  show ?case
  proof (cases "find_if_rw ?it")
    case Nil
    then show ?thesis
      using "5.prems" by simp
  next
    case (Cons e es)
    obtain w b where e: "e = (w, b)" by (cases e)
    have fi: "find_if_rw ?it = (w, b) # es"
      using Cons e by simp
    have next_in: "set ((w, b) # es) \<subseteq> set ?it"
      using fi by (metis find_if_rw_def set_dropWhileD subsetI)
    have w: "w < len"
      using "5.prems"(2) next_in by auto
    let ?m = "fold (\<lambda>elem e. e[fst elem * len + w := True]) (up_to_rw ?it) edges"
    have "edge len (scan len (find_if_rw ?it) ?m) i j"
    proof (rule "5.IH" [OF refl refl Cons e [symmetric]])
      show "size ?m = len * len"
        using "5.prems"(1) by (simp add: size_fold_keep)
      show "\<forall>d \<in> set (find_if_rw ?it). fst d < len"
        using "5.prems"(2) next_in unfolding fi by auto
      show "edge len ?m i j"
        using "5.prems" w reads by (simp add: edge_fold_to)
    qed
    then show ?thesis
      by (simp add: fi)
  qed
qed

lemma onward_from_write:
  assumes ih: "conflicts ((w, True) # es) \<subseteq> F\<^sup>+"
    and d: "d \<in> set ((w, True) # es)" and x: "(x, w) \<in> F\<^sup>+"
  shows "(x, fst d) \<in> F\<^sup>+"
proof (cases "d = (w, True)")
  case True
  with x show ?thesis by simp
next
  case False
  with d have "d \<in> set es" by simp
  then have "(w, fst d) \<in> conflicts ((w, True) # es)"
    by (rule conflicts_write_head)
  with ih have "(w, fst d) \<in> F\<^sup>+" by blast
  with x show ?thesis by (rule trancl_trans)
qed

lemma reads_then_rest:
  assumes ih: "conflicts ((w, True) # es) \<subseteq> F\<^sup>+"
    and reads: "\<forall>d \<in> set rs. \<not> snd d"
    and to_w: "\<And>a. a \<in> set rs \<Longrightarrow> (fst a, w) \<in> F"
    and c: "(i, j) \<in> conflicts (rs @ (w, True) # es)"
  shows "(i, j) \<in> F\<^sup>+"
proof -
  from conflicts_append_cases [OF c] conflicts_reads [OF reads, of i j]
  consider a b where "a \<in> set rs" "b \<in> set ((w, True) # es)" "i = fst a" "j = fst b"
    | "(i, j) \<in> conflicts ((w, True) # es)"
    by blast
  then show ?thesis
  proof cases
    case 1
    from to_w [OF 1(1)] have "(fst a, w) \<in> F\<^sup>+"
      by (rule r_into_trancl)
    with ih 1(2) have "(fst a, fst b) \<in> F\<^sup>+"
      by (rule onward_from_write)
    with 1(3,4) show ?thesis by simp
  next
    case 2
    with ih show ?thesis by blast
  qed
qed

lemma scan_complete:
  assumes "size m = n * n" and "\<forall>d \<in> set log. fst d < n"
  shows "conflicts log \<subseteq> (edge_rel n (scan n log m))\<^sup>+"
  using assms
proof (induction n log m rule: scan.induct)
  case (1 len edges)
  show ?case by (simp add: conflicts_def)
next
  case (2 len cur edges)
  show ?case by (simp add: conflicts_def)
next
  case (3 len cur t rest edges)
  let ?m = "edges[cur * len + t := True]"
  let ?F = "edge_rel len (scan len ((t, True) # rest) ?m)"
  have ih: "conflicts ((t, True) # rest) \<subseteq> ?F\<^sup>+"
    using "3.prems" by (intro "3.IH") simp_all
  have "edge len ?m cur t"
    using "3.prems" by (simp add: edge_update)
  then have "edge len (scan len ((t, True) # rest) ?m) cur t"
    using "3.prems" by (intro scan_mono) simp_all
  then have ct: "(cur, t) \<in> ?F\<^sup>+"
    by (simp add: mem_edge_rel r_into_trancl)
  have "(i, j) \<in> ?F\<^sup>+" if "(i, j) \<in> conflicts ((cur, True) # (t, True) # rest)" for i j
  proof -
    from conflicts_Cons_cases [OF that]
    consider d where "i = cur" "d \<in> set ((t, True) # rest)" "j = fst d"
      | "(i, j) \<in> conflicts ((t, True) # rest)"
      by (metis fst_conv)
    then show ?thesis
    proof cases
      case 1
      from ih 1(2) ct have "(cur, fst d) \<in> ?F\<^sup>+"
        by (rule onward_from_write)
      with 1(1,3) show ?thesis by simp
    next
      case 2
      with ih show ?thesis by blast
    qed
  qed
  then show ?case by auto
next
  case (4 len cur t rest edges)
  let ?it = "(t, False) # rest"
  have cur: "cur < len"
    using "4.prems"(2) by simp
  have reads: "\<forall>d \<in> set (up_to_rw ?it). fst d < len"
    using "4.prems"(2) unfolding up_to_rw_def by (auto dest: set_takeWhileD)
  show ?case
  proof (cases "find_if_rw ?it")
    case Nil
    note all = find_if_rw_Nil [OF Nil]
    let ?F = "edge_rel len (fold (\<lambda>elem e. e[cur * len + fst elem := True]) ?it edges)"
    have "(i, j) \<in> ?F\<^sup>+" if "(i, j) \<in> conflicts ((cur, True) # ?it)" for i j
    proof -
      from conflicts_Cons_cases [OF that] conflicts_reads [OF all(2), of i j]
      obtain d where d: "i = cur" "d \<in> set ?it" "j = fst d"
        by (metis fst_conv)
      have "edge len (fold (\<lambda>elem e. e[cur * len + fst elem := True]) ?it edges) cur (fst d)"
        using "4.prems" cur d(2) by (subst edge_fold_from) auto
      with d show ?thesis
        by (simp add: mem_edge_rel r_into_trancl)
    qed
    then show ?thesis
      using Nil all(1) by auto
  next
    case (Cons e es)
    obtain w b where e: "e = (w, b)" by (cases e)
    have fi: "find_if_rw ?it = (w, b) # es"
      using Cons e by simp
    note split = find_if_rw_split [OF fi]
    have b: "b = True"
      using split(2) by simp
    have next_in: "set ((w, b) # es) \<subseteq> set ?it"
      using fi by (metis find_if_rw_def set_dropWhileD subsetI)
    have w: "w < len"
      using "4.prems"(2) next_in by auto
    let ?rs = "up_to_rw ?it"
    let ?m = "fold (\<lambda>elem e. e[cur * len + fst elem := True, fst elem * len + w := True]) ?rs edges"
    let ?F = "edge_rel len (scan len ((w, True) # es) ?m)"
    have len_m: "size ?m = len * len"
      using "4.prems"(1) by (simp add: size_fold_keep)
    have rng: "\<forall>d \<in> set ((w, True) # es). fst d < len"
      using "4.prems"(2) next_in unfolding b by auto
    have "conflicts (find_if_rw ?it) \<subseteq> (edge_rel len (scan len (find_if_rw ?it) ?m))\<^sup>+"
    proof (rule "4.IH" [OF refl refl Cons e [symmetric]])
      show "size ?m = len * len"
        by (rule len_m)
      show "\<forall>d \<in> set (find_if_rw ?it). fst d < len"
        using rng unfolding fi b .
    qed
    then have ih: "conflicts ((w, True) # es) \<subseteq> ?F\<^sup>+"
      unfolding fi b .
    have m: "edge len ?m x y =
        (edge len edges x y \<or> (x = cur \<and> y \<in> fst ` set ?rs) \<or> (x \<in> fst ` set ?rs \<and> y = w))" for x y
      using "4.prems"(1) cur w reads by (intro edge_fold_both) simp_all
    have keep: "(x, y) \<in> ?F" if "edge len ?m x y" for x y
      using scan_mono [OF len_m rng that] by (simp add: mem_edge_rel)
    have from_cur: "(cur, fst a) \<in> ?F" if "a \<in> set ?rs" for a
      using that by (intro keep) (simp add: m)
    have to_w: "(fst a, w) \<in> ?F" if "a \<in> set ?rs" for a
      using that by (intro keep) (simp add: m)
    have t: "(t, False) \<in> set ?rs"
      by (simp add: up_to_rw_def)
    have cw: "(cur, w) \<in> ?F\<^sup>+"
      using from_cur [OF t] to_w [OF t] by auto
    have it: "?it = ?rs @ (w, True) # es"
      by (rule split(1))
    have "(i, j) \<in> ?F\<^sup>+" if "(i, j) \<in> conflicts ((cur, True) # ?it)" for i j
    proof -
      from conflicts_Cons_cases [OF that]
      consider d where "i = cur" "d \<in> set ?rs" "j = fst d"
        | d where "i = cur" "d \<in> set ((w, True) # es)" "j = fst d"
        | "(i, j) \<in> conflicts (?rs @ (w, True) # es)"
        using it by (metis Un_iff fst_conv set_append)
      then show ?thesis
      proof cases
        case 1
        with from_cur [OF 1(2)] show ?thesis by auto
      next
        case 2
        from ih 2(2) cw have "(cur, fst d) \<in> ?F\<^sup>+"
          by (rule onward_from_write)
        with 2(1,3) show ?thesis by simp
      next
        case 3
        with ih split(3) to_w show ?thesis
          by (intro reads_then_rest [where rs = ?rs and w = w and es = es]) auto
      qed
    qed
    then show ?thesis
      by (auto simp: fi b)
  qed
next
  case (5 len r rest edges)
  let ?it = "(r, False) # rest"
  have reads: "\<forall>d \<in> set (up_to_rw ?it). fst d < len"
    using "5.prems"(2) unfolding up_to_rw_def by (auto dest: set_takeWhileD)
  show ?case
  proof (cases "find_if_rw ?it")
    case Nil
    note all = find_if_rw_Nil [OF Nil]
    have "(i, j) \<notin> conflicts ?it" for i j
      by (rule conflicts_reads [OF all(2)])
    then show ?thesis
      by auto
  next
    case (Cons e es)
    obtain w b where e: "e = (w, b)" by (cases e)
    have fi: "find_if_rw ?it = (w, b) # es"
      using Cons e by simp
    note split = find_if_rw_split [OF fi]
    have b: "b = True"
      using split(2) by simp
    have next_in: "set ((w, b) # es) \<subseteq> set ?it"
      using fi by (metis find_if_rw_def set_dropWhileD subsetI)
    have w: "w < len"
      using "5.prems"(2) next_in by auto
    let ?rs = "up_to_rw ?it"
    let ?m = "fold (\<lambda>elem e. e[fst elem * len + w := True]) ?rs edges"
    let ?F = "edge_rel len (scan len ((w, True) # es) ?m)"
    have len_m: "size ?m = len * len"
      using "5.prems"(1) by (simp add: size_fold_keep)
    have rng: "\<forall>d \<in> set ((w, True) # es). fst d < len"
      using "5.prems"(2) next_in unfolding b by auto
    have "conflicts (find_if_rw ?it) \<subseteq> (edge_rel len (scan len (find_if_rw ?it) ?m))\<^sup>+"
    proof (rule "5.IH" [OF refl refl Cons e [symmetric]])
      show "size ?m = len * len"
        by (rule len_m)
      show "\<forall>d \<in> set (find_if_rw ?it). fst d < len"
        using rng unfolding fi b .
    qed
    then have ih: "conflicts ((w, True) # es) \<subseteq> ?F\<^sup>+"
      unfolding fi b .
    have m: "edge len ?m x y = (edge len edges x y \<or> (x \<in> fst ` set ?rs \<and> y = w))" for x y
      using "5.prems"(1) w reads by (intro edge_fold_to) simp_all
    have keep: "(x, y) \<in> ?F" if "edge len ?m x y" for x y
      using scan_mono [OF len_m rng that] by (simp add: mem_edge_rel)
    have to_w: "(fst a, w) \<in> ?F" if "a \<in> set ?rs" for a
      using that by (intro keep) (simp add: m)
    have it: "?it = ?rs @ (w, True) # es"
      by (rule split(1))
    have "(i, j) \<in> ?F\<^sup>+" if "(i, j) \<in> conflicts ?it" for i j
    proof -
      from that have "(i, j) \<in> conflicts (?rs @ (w, True) # es)"
        using it by simp
      with ih split(3) to_w show ?thesis
        by (intro reads_then_rest [where rs = ?rs and w = w and es = es]) auto
    qed
    then show ?thesis
      by (auto simp: fi b)
  qed
qed

lemma fold_scan_mono:
  assumes "size m = n * n" and "\<forall>log \<in> set logs. \<forall>d \<in> set log. fst d < n" and "edge n m i j"
  shows "edge n (fold (scan n) logs m) i j"
  using assms
proof (induction logs arbitrary: m)
  case Nil
  then show ?case by simp
next
  case (Cons log logs)
  have "edge n (scan n log m) i j"
    using Cons.prems by (intro scan_mono) simp_all
  then have "edge n (fold (scan n) logs (scan n log m)) i j"
    using Cons.prems by (intro Cons.IH) simp_all
  then show ?case by simp
qed

lemma fold_scan_complete:
  assumes "size m = n * n" and "\<forall>log \<in> set logs. \<forall>d \<in> set log. fst d < n" and "log \<in> set logs"
  shows "conflicts log \<subseteq> (edge_rel n (fold (scan n) logs m))\<^sup>+"
  using assms
proof (induction logs arbitrary: m)
  case Nil
  then show ?case by simp
next
  case (Cons l logs)
  show ?case
  proof (cases "log \<in> set logs")
    case True
    have "conflicts log \<subseteq> (edge_rel n (fold (scan n) logs (scan n l m)))\<^sup>+"
      using Cons.prems(1,2) True by (intro Cons.IH) simp_all
    then show ?thesis by simp
  next
    case False
    with Cons.prems(3) have l: "log = l" by simp
    have "conflicts l \<subseteq> (edge_rel n (scan n l m))\<^sup>+"
      using Cons.prems(1,2) by (intro scan_complete) simp_all
    also have "\<dots> \<subseteq> (edge_rel n (fold (scan n) logs (scan n l m)))\<^sup>+"
    proof (rule trancl_mono_subset)
      show "edge_rel n (scan n l m) \<subseteq> edge_rel n (fold (scan n) logs (scan n l m))"
        using Cons.prems(1,2) by (auto simp: mem_edge_rel intro!: fold_scan_mono)
    qed
    finally show ?thesis
      by (simp add: l)
  qed
qed

lemma create_edges_complete:
  assumes "in_range s" and "elem \<in> set (deps s)"
  shows "conflicts (snd elem) \<subseteq> (edge_rel (size (task s)) (create_edges (size (task s)) (deps s)))\<^sup>+"
proof -
  let ?n = "size (task s)"
  have "\<forall>log \<in> set (map snd (deps s)). \<forall>d \<in> set log. fst d < ?n"
    using assms(1) by (auto simp: in_range_def)
  moreover have "snd elem \<in> set (map snd (deps s))"
    using assms(2) by simp
  ultimately show ?thesis
    unfolding create_edges_logs by (intro fold_scan_complete) simp_all
qed

lemma synthesis_in_conflicts:
  assumes "in_range s"
  shows "edge_rel (size (task s)) (create_edges (size (task s)) (deps s)) \<subseteq> declared_conflicts s"
  using create_edges_sound [OF assms] by (auto simp: mem_edge_rel declared_conflicts_def)

lemma conflicts_in_synthesis:
  assumes "in_range s"
  shows "declared_conflicts s \<subseteq> (edge_rel (size (task s)) (create_edges (size (task s)) (deps s)))\<^sup>+"
  using create_edges_complete [OF assms] by (auto simp: declared_conflicts_def)

lemma synthesis_acyclic_conflicts:
  assumes "in_range s"
  shows "acyclic (edge_rel (size (task s)) (create_edges (size (task s)) (deps s))) \<longleftrightarrow>
    acyclic (declared_conflicts s)"
proof
  let ?A = "edge_rel (size (task s)) (create_edges (size (task s)) (deps s))"
  assume "acyclic ?A"
  then have "acyclic (?A\<^sup>+)"
    by (simp add: acyclic_def)
  then show "acyclic (declared_conflicts s)"
    using conflicts_in_synthesis [OF assms] by (rule acyclic_subset)
next
  assume "acyclic (declared_conflicts s)"
  then show "acyclic (edge_rel (size (task s)) (create_edges (size (task s)) (deps s)))"
    using synthesis_in_conflicts [OF assms] by (rule acyclic_subset)
qed

subsection \<open>Acyclic synthesis\<close>

text \<open>
  Claim C5, as stated, fails: a task that writes the same resource twice gets an edge to
  itself from line 57, so the relation is cyclic before the closure. The calls
  \<open>task(0).rw(0).rw(0)\<close> give such a state.
\<close>

theorem synthesis_self_loop:
  "run [Task 0, Rw 0, Rw 0] basic_flow_init =
     Inr \<lparr>index = 0, task = [0], deps = [(0, [(0, True), (0, True)])]\<rparr>
   \<and> edge 1 (create_edges 1 [(0, [(0, True), (0, True)])]) 0 0
   \<and> \<not> acyclic (edge_rel 1 (create_edges 1 [(0, [(0, True), (0, True)])]))"
proof -
  have r: "run [Task 0, Rw 0, Rw 0] basic_flow_init =
     Inr \<lparr>index = 0, task = [0], deps = [(0, [(0, True), (0, True)])]\<rparr>"
    by (simp add: basic_flow_init_def task_fn_def ro_def rw_def ENTT_ASSERT_def placeholder_def)
  have m: "create_edges 1 [(0, [(0, True), (0, True)])] = [True]"
    by (simp add: create_edges_def)
  have e: "edge 1 (create_edges 1 [(0, [(0, True), (0, True)])]) 0 0"
    unfolding m by (simp add: edge_def)
  then have "(0, 0) \<in> (edge_rel 1 (create_edges 1 [(0, [(0, True), (0, True)])]))\<^sup>+"
    by (intro r_into_trancl) (simp add: mem_edge_rel)
  then have "\<not> acyclic (edge_rel 1 (create_edges 1 [(0, [(0, True), (0, True)])]))"
    unfolding acyclic_def by blast
  with r e show ?thesis by blast
qed


text \<open>
  Distinct entries in each log are not enough: when a task is selected again after
  another one, two logs can order the same two tasks in opposite ways.
\<close>

lemma two_resource_cycle_state:
  "run [Task 0, Rw 0, Task 1, Rw 0, Rw 1, Task 0, Rw 1] basic_flow_init =
     Inr \<lparr>index = 0, task = [0, 1],
          deps = [(0, [(0, True), (1, True)]), (1, [(1, True), (0, True)])]\<rparr>"
  by (simp add: basic_flow_init_def task_fn_def ro_def rw_def ENTT_ASSERT_def placeholder_def)

lemma two_resource_cycle_edges:
  "edge_list 2 (create_edges 2 [(0, [(0, True), (1, True)]), (1, [(1, True), (0, True)])]) =
     [(0, 1), (1, 0)]"
  by code_simp

text \<open>
  Claim C5, amended. In a state produced by the builder functions, every synthesized
  edge joins a conflicting ordered pair: two entries of one log, the first declared
  before the second, at least one of them a write; and every such pair is joined by a
  path of synthesized edges. So the synthesized relation is acyclic exactly when the
  conflicting ordered pairs of the logs form an acyclic relation, as they do when the
  task indices can be ranked so that every such pair goes up in rank. A task gets a
  self-loop only from a log in which it has two entries and writes: declaring several
  reads of one resource gives none.
\<close>

theorem synthesis_acyclic_iff:
  fixes f :: "nat \<Rightarrow> nat"
  assumes "run cs basic_flow_init = Inr s"
  shows "edge_rel (size (task s)) (create_edges (size (task s)) (deps s)) \<subseteq> declared_conflicts s
    \<and> declared_conflicts s \<subseteq> (edge_rel (size (task s)) (create_edges (size (task s)) (deps s)))\<^sup>+
    \<and> (acyclic (edge_rel (size (task s)) (create_edges (size (task s)) (deps s))) \<longleftrightarrow>
        acyclic (declared_conflicts s))
    \<and> (\<forall>i. edge (size (task s)) (create_edges (size (task s)) (deps s)) i i \<longrightarrow>
        (\<exists>elem \<in> set (deps s). (i, True) \<in> set (snd elem) \<and> (i, i) \<in> conflicts (snd elem)))
    \<and> ((\<forall>p \<in> declared_conflicts s. f (fst p) < f (snd p)) \<longrightarrow>
        (\<forall>i j. edge (size (task s)) (create_edges (size (task s)) (deps s)) i j \<longrightarrow> f i < f j)
        \<and> acyclic (edge_rel (size (task s)) (create_edges (size (task s)) (deps s))))"
proof -
  let ?n = "size (task s)"
  let ?A = "edge_rel ?n (create_edges ?n (deps s))"
  have r: "in_range s"
    using assms by (rule run_in_range)
  note sub = synthesis_in_conflicts [OF r]
  have loops: "\<exists>elem \<in> set (deps s). (i, True) \<in> set (snd elem) \<and> (i, i) \<in> conflicts (snd elem)"
    if "edge ?n (create_edges ?n (deps s)) i i" for i
  proof -
    from create_edges_sound [OF r that] obtain elem
      where elem: "elem \<in> set (deps s)" "(i, i) \<in> conflicts (snd elem)"
      by blast
    from conflicts_writes [OF elem(2)] have "(i, True) \<in> set (snd elem)"
      by blast
    with elem show ?thesis by blast
  qed
  have ranked: "(\<forall>i j. edge ?n (create_edges ?n (deps s)) i j \<longrightarrow> f i < f j) \<and> acyclic ?A"
    if "\<forall>p \<in> declared_conflicts s. f (fst p) < f (snd p)"
  proof -
    have lt: "f i < f j" if "(i, j) \<in> ?A" for i j
      using that sub \<open>\<forall>p \<in> declared_conflicts s. f (fst p) < f (snd p)\<close> by fastforce
    then have "acyclic ?A"
      by (rule ranked_acyclic)
    with lt show ?thesis
      by (simp add: mem_edge_rel)
  qed
  from sub conflicts_in_synthesis [OF r] synthesis_acyclic_conflicts [OF r] loops ranked
  show ?thesis
    by blast
qed

theorem synthesis_acyclic_iff_witness:
  "run [Task 0, Ro 0, Ro 0, Task 1, Rw 0] basic_flow_init =
     Inr \<lparr>index = 1, task = [0, 1], deps = [(0, [(0, False), (0, False), (1, True)])]\<rparr>
   \<and> acyclic (declared_conflicts
       \<lparr>index = 1, task = [0, 1], deps = [(0, [(0, False), (0, False), (1, True)])]\<rparr>)
   \<and> acyclic (edge_rel 2 (create_edges 2 [(0, [(0, False), (0, False), (1, True)])]))"
proof -
  let ?s = "\<lparr>index = 1, task = [0, 1], deps = [(0, [(0, False), (0, False), (1, True)])]\<rparr>"
  have r: "run [Task 0, Ro 0, Ro 0, Task 1, Rw 0] basic_flow_init = Inr ?s"
    by (simp add: basic_flow_init_def task_fn_def ro_def rw_def ENTT_ASSERT_def placeholder_def)
  have len: "size (task ?s) = 2"
    by simp
  have c: "acyclic (declared_conflicts ?s)"
  proof (rule ranked_acyclic [of _ "\<lambda>x. x"])
    show "i < j" if "(i, j) \<in> declared_conflicts ?s" for i j
      using that unfolding declared_conflicts_def conflicts_def by auto
  qed
  from synthesis_acyclic_iff [OF r, of "\<lambda>x. x"] c
  have "acyclic (edge_rel (size (task ?s)) (create_edges (size (task ?s)) (deps ?s)))"
    by blast
  then have "acyclic (edge_rel 2 (create_edges 2 [(0, [(0, False), (0, False), (1, True)])]))"
    unfolding len by simp
  with r c show ?thesis
    by blast
qed

subsection \<open>Order preservation\<close>

text \<open>
  Claim C6. When the synthesized relation is acyclic, the transitive closure of the
  compiled graph is the transitive closure of the synthesized relation, and running the
  closure loops of the code on the compiled matrix gives the very matrix they give on
  the synthesized one.
\<close>

theorem order_preservation:
  assumes "acyclic (edge_rel (size (task s)) (create_edges (size (task s)) (deps s)))"
  shows "(edge_rel (size (task s)) (adjacency_matrix s))\<^sup>+ =
      (edge_rel (size (task s)) (create_edges (size (task s)) (deps s)))\<^sup>+
    \<and> transitive_closure (size (task s)) (adjacency_matrix s) =
      transitive_closure (size (task s)) (create_edges (size (task s)) (deps s))"
proof -
  let ?n = "size (task s)"
  let ?a = "create_edges ?n (deps s)"
  have len: "size ?a = ?n * ?n"
    by simp
  have rel: "(edge_rel ?n (adjacency_matrix s))\<^sup>+ = (edge_rel ?n ?a)\<^sup>+"
    unfolding adjacency_matrix_stages by (rule reduced_trancl [OF len assms])
  have "transitive_closure ?n (adjacency_matrix s) = transitive_closure ?n ?a"
  proof (rule matrix_eqI [where n = ?n])
    show "size (transitive_closure ?n (adjacency_matrix s)) = ?n * ?n"
      by simp
    show "size (transitive_closure ?n ?a) = ?n * ?n"
      by simp
    show "edge ?n (transitive_closure ?n (adjacency_matrix s)) i j =
        edge ?n (transitive_closure ?n ?a) i j" for i j
      by (simp add: edge_transitive_closure rel)
  qed
  with rel show ?thesis by simp
qed

theorem order_preservation_witness:
  "acyclic (edge_rel 4 (create_edges 4 [(5, [(0, True), (1, False), (2, False), (3, True)])]))
   \<and> transitive_closure 4 (adjacency_matrix \<lparr>index = 3, task = [10, 11, 12, 13],
            deps = [(5, [(0, True), (1, False), (2, False), (3, True)])]\<rparr>) =
       transitive_closure 4 (create_edges 4 [(5, [(0, True), (1, False), (2, False), (3, True)])])"
proof -
  let ?s = "\<lparr>index = 3, task = [10, 11, 12, 13],
            deps = [(5, [(0, True), (1, False), (2, False), (3, True)])]\<rparr>"
  have len: "size (task ?s) = 4"
    by simp
  have "in_range ?s"
    by (simp add: in_range_def)
  moreover have "\<forall>elem \<in> set (deps ?s). sorted_wrt (\<lambda>a b. a < b) (map fst (snd elem))"
    by simp
  ultimately have ac: "acyclic (edge_rel (size (task ?s)) (create_edges (size (task ?s)) (deps ?s)))"
    by (rule ranked_synthesis_acyclic)
  from order_preservation [OF ac] ac show ?thesis
    unfolding len by simp
qed


subsection \<open>Readers run in parallel\<close>




text \<open>
  One end on a cycle is enough for such an edge: below, tasks 0 and 1 share resource 1
  and only read it, task 0 lies on no cycle, tasks 1 and 2 write resource 2 in turn,
  and the compiled graph keeps the closure edge from 0 to 1.
\<close>

lemma one_reader_on_cycle_state:
  "run [Task 0, Ro 1, Task 1, Rw 2, Task 2, Rw 1, Rw 2, Task 1, Ro 1] basic_flow_init =
     Inr \<lparr>index = 1, task = [0, 1, 2],
          deps = [(1, [(0, False), (2, True), (1, False)]), (2, [(1, True), (2, True)])]\<rparr>"
  by (simp add: basic_flow_init_def task_fn_def ro_def rw_def ENTT_ASSERT_def placeholder_def)

lemma one_reader_on_cycle_graph:
  "edge_list 3 (create_edges 3
       [(1, [(0, False), (2, True), (1, False)]), (2, [(1, True), (2, True)])]) =
     [(0, 2), (1, 2), (2, 1)]
   \<and> edge_list 3 (adjacency_matrix \<lparr>index = 1, task = [0, 1, 2],
          deps = [(1, [(0, False), (2, True), (1, False)]), (2, [(1, True), (2, True)])]\<rparr>) =
     [(0, 1), (1, 2), (2, 1)]"
  by code_simp



end
